theory Spec2Isabelle
  imports Main "HOL-Library.Word"
begin

section \<open>Memory model\<close>

text \<open>
  Pointers are addresses, with 0 as the null pointer.  The memory holds the queue
  structures (\<open>queue_r_t\<close>) and the list nodes (\<open>node\<close>), each in a map from
  addresses: an address with no entry is not allocated, and going through it is a
  fault.  The mutex and the two condition variables hold no data of the queue; the
  lock functions below model the condition each of them waits for.
\<close>

type_synonym addr = nat

abbreviation NULL :: addr where
  "NULL \<equiv> 0"

type_synonym c_int = "32 word"

abbreviation EXIT_SUCCESS :: c_int where
  "EXIT_SUCCESS \<equiv> 0"

abbreviation EXIT_FAILURE :: c_int where
  "EXIT_FAILURE \<equiv> 1"

record node =
  object :: addr
  prev :: addr
  "next" :: addr

record queue_r_t =
  head :: addr
  tail :: addr
  readers :: c_int
  destroyed :: c_int

text \<open>
  \<open>tape\<close> is what the allocator will answer to the next calls of \<open>malloc\<close>: an
  address (null for a failed allocation) and the indeterminate contents of the block.
\<close>

record mem =
  queues :: "addr \<rightharpoonup> queue_r_t"
  nodes :: "addr \<rightharpoonup> node"
  tape :: "(addr \<times> node) list"

text \<open>
  A call either goes through an invalid pointer (\<open>Fault\<close>), or is suspended on a
  condition variable (\<open>Blocked\<close>), or returns (\<open>Done\<close>).
\<close>

datatype 'a outcome = Fault | Blocked | Done 'a

fun then_do :: "'a outcome \<Rightarrow> ('a \<Rightarrow> 'b outcome) \<Rightarrow> 'b outcome" where
  "then_do Fault f = Fault"
| "then_do Blocked f = Blocked"
| "then_do (Done x) f = f x"

text \<open>\<open>p->field\<close> read, and \<open>p->field = v\<close>, for a node and for a queue.\<close>

definition get_node :: "addr \<Rightarrow> mem \<Rightarrow> node outcome" where
  "get_node p m =
     (if p = NULL then Fault
      else case nodes m p of None \<Rightarrow> Fault | Some n \<Rightarrow> Done n)"

definition upd_node :: "addr \<Rightarrow> (node \<Rightarrow> node) \<Rightarrow> mem \<Rightarrow> mem outcome" where
  "upd_node p f m =
     (if p = NULL then Fault
      else case nodes m p of None \<Rightarrow> Fault
           | Some n \<Rightarrow> Done (m\<lparr>nodes := (nodes m)(p \<mapsto> f n)\<rparr>))"

definition get_queue :: "addr \<Rightarrow> mem \<Rightarrow> queue_r_t outcome" where
  "get_queue p m =
     (if p = NULL then Fault
      else case queues m p of None \<Rightarrow> Fault | Some Q \<Rightarrow> Done Q)"

definition upd_queue :: "addr \<Rightarrow> (queue_r_t \<Rightarrow> queue_r_t) \<Rightarrow> mem \<Rightarrow> mem outcome" where
  "upd_queue p f m =
     (if p = NULL then Fault
      else case queues m p of None \<Rightarrow> Fault
           | Some Q \<Rightarrow> Done (m\<lparr>queues := (queues m)(p \<mapsto> f Q)\<rparr>))"

text \<open>
  \<open>malloc(sizeof(node))\<close> takes the next answer of the allocator.  It returns null
  when the allocator says so, and also when the address offered is null or is a
  block still in use: \<open>malloc\<close> never hands out a live block.
\<close>

definition malloc :: "mem \<Rightarrow> addr \<times> mem" where
  "malloc m =
     (case tape m of
        [] \<Rightarrow> (NULL, m)
      | (a, junk) # rest \<Rightarrow>
          if a = NULL \<or> nodes m a \<noteq> None then (NULL, m\<lparr>tape := rest\<rparr>)
          else (a, m\<lparr>tape := rest, nodes := (nodes m)(a \<mapsto> junk)\<rparr>))"

text \<open>\<open>free(p)\<close>: nothing for null, a fault for a block that is not allocated.\<close>

definition free :: "addr \<Rightarrow> mem \<Rightarrow> mem outcome" where
  "free p m =
     (if p = NULL then Done m
      else case nodes m p of None \<Rightarrow> Fault
           | Some n \<Rightarrow> Done (m\<lparr>nodes := (nodes m)(p := None)\<rparr>))"

section \<open>Lock acquisition protocols\<close>

text \<open>
  Each lock function is given the memory as it is when the thread holds the mutex
  and tests its wait condition.  While the condition holds the thread stays in
  \<open>pthread_cond_wait\<close>: the outcome is \<open>Blocked\<close>.
\<close>

definition read_unlock :: "addr \<Rightarrow> mem \<Rightarrow> mem outcome" where
  "read_unlock queue m = upd_queue queue (\<lambda>Q. Q\<lparr>readers := readers Q - 1\<rparr>) m"

definition read_lock :: "addr \<Rightarrow> mem \<Rightarrow> mem outcome" where
  "read_lock queue m =
     then_do (get_queue queue m) (\<lambda>Q.
       if head Q = NULL \<and> destroyed Q = 0 then Blocked
       else upd_queue queue (\<lambda>Q. Q\<lparr>readers := readers Q + 1\<rparr>) m)"

definition write_unlock :: "addr \<Rightarrow> mem \<Rightarrow> mem outcome" where
  "write_unlock queue m = Done m"

definition write_lock_push :: "addr \<Rightarrow> mem \<Rightarrow> mem outcome" where
  "write_lock_push queue m =
     then_do (get_queue queue m) (\<lambda>Q.
       if readers Q \<noteq> 0 \<and> destroyed Q = 0 then Blocked else Done m)"

definition write_lock_pop :: "addr \<Rightarrow> mem \<Rightarrow> mem outcome" where
  "write_lock_pop queue m =
     then_do (get_queue queue m) (\<lambda>Q.
       if (head Q = NULL \<or> readers Q \<noteq> 0) \<and> destroyed Q = 0 then Blocked else Done m)"

section \<open>Public operations\<close>

text \<open>
  \<open>create_first_node\<close> does not test what \<open>malloc\<close> returned: on a failed
  allocation \<open>queue->head->object = object\<close> goes through the null pointer.
\<close>

definition create_first_node :: "addr \<Rightarrow> addr \<Rightarrow> mem \<Rightarrow> mem outcome" where
  "create_first_node queue obj m =
     (if queue = NULL \<or> obj = NULL then Done m
      else then_do (get_queue queue m) (\<lambda>Q.
        if head Q \<noteq> NULL \<or> tail Q \<noteq> NULL then Done m
        else
          let (p, m) = malloc m in
          then_do (upd_queue queue (\<lambda>Q. Q\<lparr>head := p\<rparr>) m) (\<lambda>m.
          then_do (upd_node p (\<lambda>n. n\<lparr>object := obj\<rparr>) m) (\<lambda>m.
          then_do (upd_node p (\<lambda>n. n\<lparr>prev := NULL\<rparr>) m) (\<lambda>m.
          then_do (upd_node p (\<lambda>n. n\<lparr>next := NULL\<rparr>) m) (\<lambda>m.
          upd_queue queue (\<lambda>Q. Q\<lparr>tail := p\<rparr>) m))))))"

definition q_init :: "addr \<Rightarrow> mem \<Rightarrow> (c_int \<times> mem) outcome" where
  "q_init queue m =
     (if queue = NULL then Done (EXIT_FAILURE, m)
      else
        then_do (upd_queue queue (\<lambda>Q. Q\<lparr>head := NULL\<rparr>) m) (\<lambda>m.
        then_do (upd_queue queue (\<lambda>Q. Q\<lparr>tail := NULL\<rparr>) m) (\<lambda>m.
        then_do (upd_queue queue (\<lambda>Q. Q\<lparr>readers := 0\<rparr>) m) (\<lambda>m.
        then_do (upd_queue queue (\<lambda>Q. Q\<lparr>destroyed := 0\<rparr>) m) (\<lambda>m.
        Done (EXIT_SUCCESS, m))))))"

text \<open>
  The public operations that wait take two memories: \<open>m0\<close>, the memory when the
  function is entered and tests its arguments without the mutex, and \<open>m\<close>, the
  memory when the thread holds the mutex and finds its wait condition false (what
  other threads made of \<open>m0\<close> in between).  On a single thread \<open>m = m0\<close>.
  The \<open>_locked\<close> part of each is what runs from the return of the lock function
  to the end.
\<close>

definition q_push_front_locked :: "addr \<Rightarrow> addr \<Rightarrow> mem \<Rightarrow> (c_int \<times> mem) outcome" where
  "q_push_front_locked queue obj m =
     then_do (get_queue queue m) (\<lambda>Q.
       if destroyed Q \<noteq> 0 then
         then_do (write_unlock queue m) (\<lambda>m. Done (EXIT_FAILURE, m))
       else if head Q = NULL then
         then_do (create_first_node queue obj m) (\<lambda>m.
         then_do (write_unlock queue m) (\<lambda>m. Done (EXIT_SUCCESS, m)))
       else
         let (new_node, m) = malloc m in
         if new_node \<noteq> NULL then
           then_do (upd_node new_node (\<lambda>n. n\<lparr>object := obj\<rparr>) m) (\<lambda>m.
           then_do (upd_node new_node (\<lambda>n. n\<lparr>prev := NULL\<rparr>) m) (\<lambda>m.
           then_do (upd_node new_node (\<lambda>n. n\<lparr>next := head Q\<rparr>) m) (\<lambda>m.
           then_do (upd_node (head Q) (\<lambda>n. n\<lparr>prev := new_node\<rparr>) m) (\<lambda>m.
           then_do (upd_queue queue (\<lambda>Q. Q\<lparr>head := new_node\<rparr>) m) (\<lambda>m.
           then_do (write_unlock queue m) (\<lambda>m. Done (EXIT_SUCCESS, m)))))))
         else
           then_do (write_unlock queue m) (\<lambda>m. Done (EXIT_FAILURE, m)))"

definition q_push_front :: "addr \<Rightarrow> addr \<Rightarrow> mem \<Rightarrow> mem \<Rightarrow> (c_int \<times> mem) outcome" where
  "q_push_front queue obj m0 m =
     (if queue = NULL \<or> obj = NULL then Done (EXIT_FAILURE, m0)
      else then_do (get_queue queue m0) (\<lambda>Q0.
        if destroyed Q0 \<noteq> 0 then Done (EXIT_FAILURE, m0)
        else then_do (write_lock_push queue m) (q_push_front_locked queue obj)))"

definition q_push_back_locked :: "addr \<Rightarrow> addr \<Rightarrow> mem \<Rightarrow> (c_int \<times> mem) outcome" where
  "q_push_back_locked queue obj m =
     then_do (get_queue queue m) (\<lambda>Q.
       if destroyed Q \<noteq> 0 then
         then_do (write_unlock queue m) (\<lambda>m. Done (EXIT_FAILURE, m))
       else if tail Q = NULL then
         then_do (create_first_node queue obj m) (\<lambda>m.
         then_do (write_unlock queue m) (\<lambda>m. Done (EXIT_SUCCESS, m)))
       else
         let (new_node, m) = malloc m in
         if new_node \<noteq> NULL then
           then_do (upd_node new_node (\<lambda>n. n\<lparr>object := obj\<rparr>) m) (\<lambda>m.
           then_do (upd_node new_node (\<lambda>n. n\<lparr>prev := tail Q\<rparr>) m) (\<lambda>m.
           then_do (upd_node new_node (\<lambda>n. n\<lparr>next := NULL\<rparr>) m) (\<lambda>m.
           then_do (upd_node (tail Q) (\<lambda>n. n\<lparr>next := new_node\<rparr>) m) (\<lambda>m.
           then_do (upd_queue queue (\<lambda>Q. Q\<lparr>tail := new_node\<rparr>) m) (\<lambda>m.
           then_do (write_unlock queue m) (\<lambda>m. Done (EXIT_SUCCESS, m)))))))
         else
           then_do (write_unlock queue m) (\<lambda>m. Done (EXIT_FAILURE, m)))"

definition q_push_back :: "addr \<Rightarrow> addr \<Rightarrow> mem \<Rightarrow> mem \<Rightarrow> (c_int \<times> mem) outcome" where
  "q_push_back queue obj m0 m =
     (if queue = NULL \<or> obj = NULL then Done (EXIT_FAILURE, m0)
      else then_do (get_queue queue m0) (\<lambda>Q0.
        if destroyed Q0 \<noteq> 0 then Done (EXIT_FAILURE, m0)
        else then_do (write_lock_push queue m) (q_push_back_locked queue obj)))"

definition q_pop_front_locked :: "addr \<Rightarrow> mem \<Rightarrow> (addr \<times> mem) outcome" where
  "q_pop_front_locked queue m =
     then_do (get_queue queue m) (\<lambda>Q.
       if destroyed Q = 0 then
         then_do (get_node (head Q) m) (\<lambda>hn.
           let front_object = object hn in
           if head Q = tail Q then
             then_do (free (head Q) m) (\<lambda>m.
             then_do (upd_queue queue (\<lambda>Q. Q\<lparr>head := NULL\<rparr>) m) (\<lambda>m.
             then_do (upd_queue queue (\<lambda>Q. Q\<lparr>tail := NULL\<rparr>) m) (\<lambda>m.
             then_do (write_unlock queue m) (\<lambda>m. Done (front_object, m)))))
           else
             let head_next = next hn in
             then_do (free (head Q) m) (\<lambda>m.
             then_do (upd_node head_next (\<lambda>n. n\<lparr>prev := NULL\<rparr>) m) (\<lambda>m.
             then_do (upd_queue queue (\<lambda>Q. Q\<lparr>head := head_next\<rparr>) m) (\<lambda>m.
             then_do (write_unlock queue m) (\<lambda>m. Done (front_object, m))))))
       else
         then_do (write_unlock queue m) (\<lambda>m. Done (NULL, m)))"

definition q_pop_front :: "addr \<Rightarrow> mem \<Rightarrow> mem \<Rightarrow> (addr \<times> mem) outcome" where
  "q_pop_front queue m0 m =
     (if queue = NULL then Done (NULL, m0)
      else then_do (get_queue queue m0) (\<lambda>Q0.
        if destroyed Q0 \<noteq> 0 then Done (NULL, m0)
        else then_do (write_lock_pop queue m) (q_pop_front_locked queue)))"

definition q_pop_back_locked :: "addr \<Rightarrow> mem \<Rightarrow> (addr \<times> mem) outcome" where
  "q_pop_back_locked queue m =
     then_do (get_queue queue m) (\<lambda>Q.
       if destroyed Q = 0 then
         then_do (get_node (tail Q) m) (\<lambda>tn.
           let back_object = object tn in
           if head Q = tail Q then
             then_do (free (tail Q) m) (\<lambda>m.
             then_do (upd_queue queue (\<lambda>Q. Q\<lparr>head := NULL\<rparr>) m) (\<lambda>m.
             then_do (upd_queue queue (\<lambda>Q. Q\<lparr>tail := NULL\<rparr>) m) (\<lambda>m.
             then_do (write_unlock queue m) (\<lambda>m. Done (back_object, m)))))
           else
             let tail_prev = prev tn in
             then_do (free (tail Q) m) (\<lambda>m.
             then_do (upd_node tail_prev (\<lambda>n. n\<lparr>next := NULL\<rparr>) m) (\<lambda>m.
             then_do (upd_queue queue (\<lambda>Q. Q\<lparr>tail := tail_prev\<rparr>) m) (\<lambda>m.
             then_do (write_unlock queue m) (\<lambda>m. Done (back_object, m))))))
       else
         then_do (write_unlock queue m) (\<lambda>m. Done (NULL, m)))"

definition q_pop_back :: "addr \<Rightarrow> mem \<Rightarrow> mem \<Rightarrow> (addr \<times> mem) outcome" where
  "q_pop_back queue m0 m =
     (if queue = NULL then Done (NULL, m0)
      else then_do (get_queue queue m0) (\<lambda>Q0.
        if destroyed Q0 \<noteq> 0 then Done (NULL, m0)
        else then_do (write_lock_pop queue m) (q_pop_back_locked queue)))"

text \<open>
  The callback of \<open>q_traverse\<close> is a function on the caller's own data (of type
  \<open>'u\<close>) that is given the payload; a null function pointer is \<open>None\<close>.  The
  loops follow \<open>next\<close> pointers of the heap and need not end on a heap that is not
  a list: \<open>None\<close> is a loop that never returns.
\<close>

partial_function (option) traverse_loop ::
  "(addr \<Rightarrow> 'u \<Rightarrow> 'u) \<Rightarrow> mem \<Rightarrow> addr \<Rightarrow> 'u \<Rightarrow> 'u outcome option" where
  "traverse_loop traverse m current u =
     (if current = NULL then Some (Done u)
      else case nodes m current of
             None \<Rightarrow> Some Fault
           | Some n \<Rightarrow> traverse_loop traverse m (next n) (traverse (object n) u))"

declare traverse_loop.simps [code]

definition q_traverse ::
  "addr \<Rightarrow> (addr \<Rightarrow> 'u \<Rightarrow> 'u) option \<Rightarrow> mem \<Rightarrow> mem \<Rightarrow> 'u \<Rightarrow> (c_int \<times> mem \<times> 'u) outcome option" where
  "q_traverse queue traverse m0 m u =
     (case traverse of
        None \<Rightarrow> Some (Done (EXIT_FAILURE, m0, u))
      | Some f \<Rightarrow>
          if queue = NULL then Some (Done (EXIT_FAILURE, m0, u))
          else
            (case queues m0 queue of
               None \<Rightarrow> Some Fault
             | Some Q0 \<Rightarrow>
                 if destroyed Q0 \<noteq> 0 then Some (Done (EXIT_FAILURE, m0, u))
                 else
                   (case read_lock queue m of
                      Fault \<Rightarrow> Some Fault
                    | Blocked \<Rightarrow> Some Blocked
                    | Done m \<Rightarrow>
                        (case queues m queue of
                           None \<Rightarrow> Some Fault
                         | Some Q \<Rightarrow>
                             if destroyed Q = 0 then
                               map_option (\<lambda>r. then_do r (\<lambda>u.
                                   then_do (read_unlock queue m)
                                     (\<lambda>m. Done (EXIT_SUCCESS, m, u))))
                                 (traverse_loop f m (head Q) u)
                             else
                               Some (then_do (read_unlock queue m)
                                       (\<lambda>m. Done (EXIT_FAILURE, m, u)))))))"

partial_function (option) deinit_loop :: "addr \<Rightarrow> mem \<Rightarrow> mem outcome option" where
  "deinit_loop current m =
     (if current = NULL then Some (Done m)
      else case get_node current m of
             Fault \<Rightarrow> Some Fault
           | Blocked \<Rightarrow> Some Blocked
           | Done n \<Rightarrow>
               (case free current m of
                  Fault \<Rightarrow> Some Fault
                | Blocked \<Rightarrow> Some Blocked
                | Done m \<Rightarrow> deinit_loop (next n) m))"

declare deinit_loop.simps [code]

definition q_deinit_locked :: "addr \<Rightarrow> mem \<Rightarrow> mem outcome option" where
  "q_deinit_locked queue m =
     (case queues m queue of
        None \<Rightarrow> Some Fault
      | Some Q \<Rightarrow>
          if destroyed Q = 0 then
            map_option (\<lambda>r. then_do r (\<lambda>m.
                then_do (upd_queue queue (\<lambda>Q. Q\<lparr>head := NULL\<rparr>) m) (\<lambda>m.
                then_do (upd_queue queue (\<lambda>Q. Q\<lparr>tail := NULL\<rparr>) m) (\<lambda>m.
                then_do (upd_queue queue (\<lambda>Q. Q\<lparr>destroyed := 1\<rparr>) m) (\<lambda>m.
                write_unlock queue m)))))
              (deinit_loop (head Q) m)
          else Some (write_unlock queue m))"

definition q_deinit :: "addr \<Rightarrow> mem \<Rightarrow> mem \<Rightarrow> mem outcome option" where
  "q_deinit queue m0 m =
     (if queue = NULL then Some (Done m0)
      else case queues m0 queue of
        None \<Rightarrow> Some Fault
      | Some Q0 \<Rightarrow>
          if destroyed Q0 \<noteq> 0 then Some (Done m0)
          else
            (case write_lock_push queue m of
               Fault \<Rightarrow> Some Fault
             | Blocked \<Rightarrow> Some Blocked
             | Done m \<Rightarrow> q_deinit_locked queue m))"

section \<open>A single thread calling the public operations\<close>

datatype 'u call =
    Init
  | Push_front addr
  | Push_back addr
  | Pop_front
  | Pop_back
  | Traverse "(addr \<Rightarrow> 'u \<Rightarrow> 'u) option"
  | Deinit

datatype ret = Status c_int | Payload addr | Nothing

text \<open>
  One call on one thread: no other thread runs between the test of the arguments
  and the lock, so both memories are the same.
\<close>

fun exec :: "addr \<Rightarrow> 'u call \<Rightarrow> mem \<times> 'u \<Rightarrow> (ret \<times> mem \<times> 'u) outcome option" where
  "exec queue Init (m, u) =
     Some (then_do (q_init queue m) (\<lambda>(r, m). Done (Status r, m, u)))"
| "exec queue (Push_front obj) (m, u) =
     Some (then_do (q_push_front queue obj m m) (\<lambda>(r, m). Done (Status r, m, u)))"
| "exec queue (Push_back obj) (m, u) =
     Some (then_do (q_push_back queue obj m m) (\<lambda>(r, m). Done (Status r, m, u)))"
| "exec queue Pop_front (m, u) =
     Some (then_do (q_pop_front queue m m) (\<lambda>(r, m). Done (Payload r, m, u)))"
| "exec queue Pop_back (m, u) =
     Some (then_do (q_pop_back queue m m) (\<lambda>(r, m). Done (Payload r, m, u)))"
| "exec queue (Traverse f) (m, u) =
     map_option (\<lambda>r. then_do r (\<lambda>(r, m, u). Done (Status r, m, u))) (q_traverse queue f m m u)"
| "exec queue Deinit (m, u) =
     map_option (\<lambda>r. then_do r (\<lambda>m. Done (Nothing, m, u))) (q_deinit queue m m)"

fun run :: "addr \<Rightarrow> 'u call list \<Rightarrow> mem \<times> 'u \<Rightarrow> (ret list \<times> mem \<times> 'u) outcome option" where
  "run queue [] s = Some (Done ([], s))"
| "run queue (c # cs) s =
     (case exec queue c s of
        None \<Rightarrow> None
      | Some Fault \<Rightarrow> Some Fault
      | Some Blocked \<Rightarrow> Some Blocked
      | Some (Done (r, s')) \<Rightarrow>
          map_option (\<lambda>rest. then_do rest (\<lambda>(rs, s''). Done (r # rs, s''))) (run queue cs s'))"

section \<open>The list in the heap\<close>

text \<open>
  \<open>dlseg h pv p as e\<close>: following \<open>next\<close> from \<open>p\<close> in the heap \<open>h\<close> visits
  exactly the nodes \<open>as\<close>, all allocated and not null, and then arrives at \<open>e\<close>;
  the \<open>prev\<close> of the first node is \<open>pv\<close> and the \<open>prev\<close> of every other node
  is the node before it.
\<close>

fun dlseg :: "(addr \<rightharpoonup> node) \<Rightarrow> addr \<Rightarrow> addr \<Rightarrow> addr list \<Rightarrow> addr \<Rightarrow> bool" where
  "dlseg h pv p [] e = (p = e)"
| "dlseg h pv p (a # as) e =
     (p = a \<and> a \<noteq> NULL \<and>
      (case h a of None \<Rightarrow> False | Some n \<Rightarrow> prev n = pv \<and> dlseg h a (next n) as e))"

text \<open>
  The structural invariant of the queue at \<open>queue\<close>, with \<open>as\<close> the addresses of
  its nodes from front to back: the chain from \<open>head\<close> is \<open>as\<close> and ends with a
  null \<open>next\<close>, the \<open>prev\<close> of the head is null, \<open>tail\<close> is the last node
  (null when there is none), and no node occurs twice.
\<close>

definition queue_inv :: "addr \<Rightarrow> mem \<Rightarrow> addr list \<Rightarrow> bool" where
  "queue_inv queue m as =
     (queue \<noteq> NULL \<and>
      (case queues m queue of
         None \<Rightarrow> False
       | Some Q \<Rightarrow>
           dlseg (nodes m) NULL (head Q) as NULL \<and> tail Q = last (NULL # as) \<and> distinct as))"

text \<open>The payloads held by the nodes \<open>as\<close>, in the same order.\<close>

definition payloads :: "mem \<Rightarrow> addr list \<Rightarrow> addr list" where
  "payloads m as = map (\<lambda>a. case nodes m a of None \<Rightarrow> NULL | Some n \<Rightarrow> object n) as"

section \<open>Example memories\<close>

text \<open>An initialized queue at address 1, first empty, then with two elements.\<close>

definition live_empty_mem :: mem where
  "live_empty_mem =
     \<lparr>queues = [1 \<mapsto> \<lparr>head = NULL, tail = NULL, readers = 0, destroyed = 0\<rparr>],
      nodes = Map.empty,
      tape = []\<rparr>"

definition two_node_queue :: queue_r_t where
  "two_node_queue = \<lparr>head = 10, tail = 11, readers = 0, destroyed = 0\<rparr>"

definition two_node_mem :: mem where
  "two_node_mem =
     \<lparr>queues = [1 \<mapsto> two_node_queue],
      nodes = [10 \<mapsto> \<lparr>object = 100, prev = NULL, next = 11\<rparr>,
               11 \<mapsto> \<lparr>object = 101, prev = 10, next = NULL\<rparr>],
      tape = [(12, \<lparr>object = 7, prev = 8, next = 9\<rparr>)]\<rparr>"

text \<open>The queue with two elements after \<open>q_deinit\<close>.\<close>

definition torn_down_queue :: queue_r_t where
  "torn_down_queue = \<lparr>head = NULL, tail = NULL, readers = 0, destroyed = 1\<rparr>"

definition torn_down_mem :: mem where
  "torn_down_mem =
     \<lparr>queues = [1 \<mapsto> torn_down_queue],
      nodes = Map.empty,
      tape = [(12, \<lparr>object = 7, prev = 8, next = 9\<rparr>)]\<rparr>"

text \<open>The queue with two elements while a traversal has the read lock.\<close>

definition two_node_read_mem :: mem where
  "two_node_read_mem = two_node_mem\<lparr>queues := [1 \<mapsto> two_node_queue\<lparr>readers := 1\<rparr>]\<rparr>"

text \<open>The reader count and the destroyed flag of the queue are the same in both memories.\<close>

definition same_flags :: "addr \<Rightarrow> mem \<Rightarrow> mem \<Rightarrow> bool" where
  "same_flags queue m m' =
     (case queues m queue of
        None \<Rightarrow> False
      | Some Q \<Rightarrow>
          (case queues m' queue of
             None \<Rightarrow> False
           | Some Q' \<Rightarrow> readers Q' = readers Q \<and> destroyed Q' = destroyed Q))"

text \<open>
  The structural invariant in the words of the specification, for the queue
  structure \<open>Q\<close>, the heap \<open>h\<close> and the nodes \<open>as\<close> of the list from front to
  back (their number is the element count): head is null iff tail is null iff the
  list is empty; head is the first node and tail the last; every node is allocated;
  the \<open>prev\<close> of the head and the \<open>next\<close> of the tail are null; the \<open>next\<close> of
  each other node is the node after it, so that the chain from head reaches tail
  after visiting exactly the nodes of the list; and \<open>prev\<close> of the node after it
  leads back.
\<close>

definition well_linked :: "queue_r_t \<Rightarrow> (addr \<rightharpoonup> node) \<Rightarrow> addr list \<Rightarrow> bool" where
  "well_linked Q h as =
     ((head Q = NULL \<longleftrightarrow> tail Q = NULL) \<and> (head Q = NULL \<longleftrightarrow> as = []) \<and>
      (as \<noteq> [] \<longrightarrow> head Q = hd as \<and> tail Q = last as) \<and>
      (\<forall>i < length as.
         case h (as ! i) of
           None \<Rightarrow> False
         | Some n \<Rightarrow>
             as ! i \<noteq> NULL \<and>
             prev n = (if i = 0 then NULL else as ! (i - 1)) \<and>
             next n = (if Suc i = length as then NULL else as ! Suc i)))"

text \<open>The queue with two elements after \<open>q_push_front\<close> of the payload 102.\<close>

definition three_node_mem :: mem where
  "three_node_mem =
     \<lparr>queues = [1 \<mapsto> \<lparr>head = 12, tail = 11, readers = 0, destroyed = 0\<rparr>],
      nodes = [10 \<mapsto> \<lparr>object = 100, prev = 12, next = 11\<rparr>,
               11 \<mapsto> \<lparr>object = 101, prev = 10, next = NULL\<rparr>,
               12 \<mapsto> \<lparr>object = 102, prev = NULL, next = 10\<rparr>],
      tape = []\<rparr>"

text \<open>The queue with two elements after \<open>q_pop_front\<close>, and after \<open>q_pop_back\<close>.\<close>

definition popped_front_mem :: mem where
  "popped_front_mem =
     \<lparr>queues = [1 \<mapsto> \<lparr>head = 11, tail = 11, readers = 0, destroyed = 0\<rparr>],
      nodes = [11 \<mapsto> \<lparr>object = 101, prev = NULL, next = NULL\<rparr>],
      tape = [(12, \<lparr>object = 7, prev = 8, next = 9\<rparr>)]\<rparr>"

definition popped_back_mem :: mem where
  "popped_back_mem =
     \<lparr>queues = [1 \<mapsto> \<lparr>head = 10, tail = 10, readers = 0, destroyed = 0\<rparr>],
      nodes = [10 \<mapsto> \<lparr>object = 100, prev = NULL, next = NULL\<rparr>],
      tape = [(12, \<lparr>object = 7, prev = 8, next = 9\<rparr>)]\<rparr>"

text \<open>The torn down queue after a second \<open>q_init\<close>.\<close>

definition reinit_mem :: mem where
  "reinit_mem =
     \<lparr>queues = [1 \<mapsto> \<lparr>head = NULL, tail = NULL, readers = 0, destroyed = 0\<rparr>],
      nodes = Map.empty,
      tape = [(12, \<lparr>object = 7, prev = 8, next = 9\<rparr>)]\<rparr>"

section \<open>The reference deque\<close>

text \<open>
  The reference double-ended queue, in the words of the specification: the queue is
  the list of its payloads from front to back; a push adds the payload at its end
  and succeeds, but a null payload is an invalid argument and fails at once; a pop
  takes the payload at its end, and waits on an empty queue.
\<close>

datatype deque_op = PushFront addr | PushBack addr | PopFront | PopBack

fun ref_deque_step :: "deque_op \<Rightarrow> addr list \<Rightarrow> (ret \<times> addr list) outcome" where
  "ref_deque_step (PushFront x) xs =
     (if x = NULL then Done (Status EXIT_FAILURE, xs) else Done (Status EXIT_SUCCESS, x # xs))"
| "ref_deque_step (PushBack x) xs =
     (if x = NULL then Done (Status EXIT_FAILURE, xs) else Done (Status EXIT_SUCCESS, xs @ [x]))"
| "ref_deque_step PopFront xs =
     (if xs = [] then Blocked else Done (Payload (hd xs), tl xs))"
| "ref_deque_step PopBack xs =
     (if xs = [] then Blocked else Done (Payload (last xs), butlast xs))"

fun ref_deque_run :: "deque_op list \<Rightarrow> addr list \<Rightarrow> (ret list \<times> addr list) outcome" where
  "ref_deque_run [] xs = Done ([], xs)"
| "ref_deque_run (c # cs) xs =
     then_do (ref_deque_step c xs) (\<lambda>(r, ys).
     then_do (ref_deque_run cs ys) (\<lambda>(rs, zs). Done (r # rs, zs)))"

text \<open>The call of the queue for an operation of the reference deque.\<close>

fun to_call :: "deque_op \<Rightarrow> 'u call" where
  "to_call (PushFront x) = Push_front x"
| "to_call (PushBack x) = Push_back x"
| "to_call PopFront = Pop_front"
| "to_call PopBack = Pop_back"

text \<open>
  The allocator serves a run of the queue on one thread when \<open>malloc\<close> returns a
  block each time the run calls it.  A push calls \<open>malloc\<close> once, unless its
  payload is null; a pop does not call it.  Nothing is asked of the addresses that
  \<open>malloc\<close> returns: it may give again a block that a pop has freed.
\<close>

fun allocation_succeeds :: "deque_op \<Rightarrow> mem \<Rightarrow> bool" where
  "allocation_succeeds (PushFront x) m = (x = NULL \<or> fst (malloc m) \<noteq> NULL)"
| "allocation_succeeds (PushBack x) m = (x = NULL \<or> fst (malloc m) \<noteq> NULL)"
| "allocation_succeeds PopFront m = True"
| "allocation_succeeds PopBack m = True"

fun allocations_succeed :: "addr \<Rightarrow> deque_op list \<Rightarrow> mem \<times> 'u \<Rightarrow> bool" where
  "allocations_succeed queue [] s = True"
| "allocations_succeed queue (c # cs) s =
     (allocation_succeeds c (fst s) \<and>
      (case exec queue (to_call c) s of
         Some (Done (r, s')) \<Rightarrow> allocations_succeed queue cs s'
       | _ \<Rightarrow> True))"

text \<open>
  What the caller can see of it: every push of a payload that is not null has
  reported success.
\<close>

fun pushes_succeeded :: "deque_op list \<Rightarrow> ret list \<Rightarrow> bool" where
  "pushes_succeeded [] rs = True"
| "pushes_succeeded (c # cs) [] = False"
| "pushes_succeeded (PushFront x # cs) (r # rs) =
     ((x = NULL \<or> r = Status EXIT_SUCCESS) \<and> pushes_succeeded cs rs)"
| "pushes_succeeded (PushBack x # cs) (r # rs) =
     ((x = NULL \<or> r = Status EXIT_SUCCESS) \<and> pushes_succeeded cs rs)"
| "pushes_succeeded (PopFront # cs) (r # rs) = pushes_succeeded cs rs"
| "pushes_succeeded (PopBack # cs) (r # rs) = pushes_succeeded cs rs"

text \<open>
  An initialized empty queue, and an allocator that gives the block at 10, the
  block at 11, and then the block at 10 again.
\<close>

definition recycling_mem :: mem where
  "recycling_mem =
     \<lparr>queues = [1 \<mapsto> \<lparr>head = NULL, tail = NULL, readers = 0, destroyed = 0\<rparr>],
      nodes = Map.empty,
      tape = [(10, \<lparr>object = 7, prev = 8, next = 9\<rparr>), (11, \<lparr>object = 7, prev = 8, next = 9\<rparr>),
              (10, \<lparr>object = 3, prev = 4, next = 5\<rparr>)]\<rparr>"

text \<open>That memory when the three blocks have been given and freed again.\<close>

definition recycled_mem :: mem where
  "recycled_mem =
     \<lparr>queues = [1 \<mapsto> \<lparr>head = NULL, tail = NULL, readers = 0, destroyed = 0\<rparr>],
      nodes = Map.empty,
      tape = []\<rparr>"

section \<open>Basic facts\<close>

lemma then_do_Done_iff:
  "then_do r f = Done y \<longleftrightarrow> (\<exists>x. r = Done x \<and> f x = Done y)"
  by (cases r) auto

lemma then_do_Blocked_iff:
  "then_do r f = Blocked \<longleftrightarrow> r = Blocked \<or> (\<exists>x. r = Done x \<and> f x = Blocked)"
  by (cases r) auto

lemma upd_queue_queues:
  "upd_queue q f m = Done m' \<Longrightarrow> \<exists>Q. queues m q = Some Q \<and> queues m' q = Some (f Q)"
  by (auto simp: upd_queue_def split: option.splits if_splits)

lemma write_lock_push_Done:
  "write_lock_push q m = Done m' \<Longrightarrow> m' = m"
  by (cases "get_queue q m") (auto simp: write_lock_push_def split: if_splits)

lemma write_lock_pop_Done:
  "write_lock_pop q m = Done m' \<Longrightarrow> m' = m"
  by (cases "get_queue q m") (auto simp: write_lock_pop_def split: if_splits)

lemma traverse_loop_not_blocked:
  assumes "traverse_loop f m p u = Some r"
  shows "r \<noteq> Blocked"
  using assms
  by (rule traverse_loop.raw_induct [rotated 1, where P = "\<lambda>f m p u r. r \<noteq> Blocked"])
     (auto split: if_splits option.splits)

lemma read_lock_not_blocked:
  assumes "queue \<noteq> NULL" "queues m queue = Some Q" "\<not> (head Q = NULL \<and> destroyed Q = 0)"
  shows "read_lock queue m = Done (m\<lparr>queues := (queues m)(queue \<mapsto> Q\<lparr>readers := readers Q + 1\<rparr>)\<rparr>)"
  using assms by (auto simp: read_lock_def get_queue_def upd_queue_def)

lemma read_lock_blocked:
  assumes "queue \<noteq> NULL" "queues m queue = Some Q" "head Q = NULL \<and> destroyed Q = 0"
  shows "read_lock queue m = Blocked"
  using assms by (simp add: read_lock_def get_queue_def)

section \<open>Traversal of an empty queue\<close>

text \<open>
  C5 (as amended).  A call of \<open>q_traverse\<close> with a queue and a callback that are
  not null, entered while the queue is not destroyed, is suspended in
  \<open>read_lock\<close> exactly when the queue is empty and not destroyed at the moment the
  wait condition is tested: on an empty queue that is not destroyed it waits for a
  push or for \<open>q_deinit\<close>, and it goes on without waiting only when the queue has
  an element or is destroyed.
\<close>

theorem q_traverse_blocks_iff_empty_and_live:
  assumes "queue \<noteq> NULL"
    and "queues m0 queue = Some Q0" and "destroyed Q0 = 0"
    and "queues m queue = Some Q"
  shows "q_traverse queue (Some f) m0 m u = Some Blocked \<longleftrightarrow> head Q = NULL \<and> destroyed Q = 0"
proof (cases "head Q = NULL \<and> destroyed Q = 0")
  case True
  from read_lock_blocked [OF assms(1,4) True] assms True show ?thesis
    by (simp add: q_traverse_def)
next
  case False
  let ?m1 = "m\<lparr>queues := (queues m)(queue \<mapsto> Q\<lparr>readers := readers Q + 1\<rparr>)\<rparr>"
  have rl: "read_lock queue m = Done ?m1"
    by (rule read_lock_not_blocked [OF assms(1,4) False])
  have q1: "queues ?m1 queue = Some (Q\<lparr>readers := readers Q + 1\<rparr>)"
    by simp
  obtain m2 where ru: "read_unlock queue ?m1 = Done m2"
    using assms(1) by (simp add: read_unlock_def upd_queue_def)
  have "q_traverse queue (Some f) m0 m u \<noteq> Some Blocked"
  proof (cases "destroyed Q = 0")
    case True
    show ?thesis
    proof (cases "traverse_loop f ?m1 (head Q) u")
      case None
      with assms(1-3) rl q1 True show ?thesis
        by (simp add: q_traverse_def del: fun_upd_apply)
    next
      case (Some r)
      from traverse_loop_not_blocked [OF Some] have "r \<noteq> Blocked" .
      then have "then_do r (\<lambda>u. then_do (read_unlock queue ?m1) (\<lambda>m. Done (EXIT_SUCCESS, m, u)))
                 \<noteq> Blocked"
        using ru by (cases r) simp_all
      with Some assms(1-3) rl q1 True show ?thesis
        by (simp add: q_traverse_def del: fun_upd_apply)
    qed
  next
    case nz: False
    with assms(1-3) rl q1 ru show ?thesis
      by (simp add: q_traverse_def del: fun_upd_apply)
  qed
  with False show ?thesis by simp
qed

text \<open>On the queue with two elements the call is not suspended.\<close>

theorem q_traverse_blocks_iff_witness:
  "(1::addr) \<noteq> NULL \<and> queues two_node_mem 1 = Some two_node_queue
   \<and> destroyed two_node_queue = 0
   \<and> (q_traverse 1 (Some (#)) two_node_mem two_node_mem [] = Some Blocked
        \<longleftrightarrow> head two_node_queue = NULL \<and> destroyed two_node_queue = 0)"
proof -
  have h1: "(1::addr) \<noteq> NULL" by simp
  have h2: "queues two_node_mem 1 = Some two_node_queue" by (simp add: two_node_mem_def)
  have h3: "destroyed two_node_queue = 0" by (simp add: two_node_queue_def)
  from q_traverse_blocks_iff_empty_and_live [OF h1 h2 h3 h2, of "(#)" "[]"] h1 h2 h3
  show ?thesis by blast
qed

text \<open>
  C5 as stated fails: on the empty queue that is not destroyed the call of
  \<open>q_traverse\<close> is suspended.
\<close>

theorem q_traverse_empty_live_blocks:
  "q_traverse 1 (Some (#)) live_empty_mem live_empty_mem [] = Some Blocked"
  by (simp add: live_empty_mem_def q_traverse_def read_lock_def get_queue_def)

section \<open>Teardown twice\<close>

lemma q_deinit_locked_destroyed:
  assumes "q_deinit_locked queue m = Some (Done m1)"
  shows "\<exists>Q1. queues m1 queue = Some Q1 \<and> destroyed Q1 \<noteq> 0"
proof (cases "queues m queue")
  case None
  with assms show ?thesis by (simp add: q_deinit_locked_def)
next
  case (Some Q)
  show ?thesis
  proof (cases "destroyed Q = 0")
    case False
    with assms Some show ?thesis by (simp add: q_deinit_locked_def write_unlock_def)
  next
    case True
    with assms Some obtain z where "then_do z (\<lambda>m.
                then_do (upd_queue queue (\<lambda>Q. Q\<lparr>head := NULL\<rparr>) m) (\<lambda>m.
                then_do (upd_queue queue (\<lambda>Q. Q\<lparr>tail := NULL\<rparr>) m) (\<lambda>m.
                then_do (upd_queue queue (\<lambda>Q. Q\<lparr>destroyed := 1\<rparr>) m) (\<lambda>m.
                write_unlock queue m)))) = Done m1"
      by (auto simp: q_deinit_locked_def)
    then obtain c where "upd_queue queue (\<lambda>Q. Q\<lparr>destroyed := 1\<rparr>) c = Done m1"
      unfolding then_do_Done_iff write_unlock_def by blast
    from upd_queue_queues [OF this] show ?thesis by auto
  qed
qed

lemma q_deinit_destroyed_before:
  assumes "queue \<noteq> NULL" "queues m0 queue = Some Q0" "destroyed Q0 \<noteq> 0"
  shows "q_deinit queue m0 m = Some (Done m0)"
  using assms by (simp add: q_deinit_def)

lemma q_deinit_live_before:
  assumes "queue \<noteq> NULL" "queues m0 queue = Some Q0" "destroyed Q0 = 0"
  shows "q_deinit queue m0 m =
    (case write_lock_push queue m of
       Fault \<Rightarrow> Some Fault
     | Blocked \<Rightarrow> Some Blocked
     | Done m \<Rightarrow> q_deinit_locked queue m)"
  using assms by (simp add: q_deinit_def)

text \<open>
  C9.  \<open>q_deinit\<close> is idempotent: once a call of \<open>q_deinit\<close> has returned, leaving
  the memory \<open>m1\<close>, a second call returns at once and leaves \<open>m1\<close> as it is
  (head, tail, readers, destroyed and everything else), whatever other threads do
  meanwhile (\<open>m2\<close>).
\<close>

theorem q_deinit_idempotent:
  assumes "q_deinit queue m0 m = Some (Done m1)"
  shows "q_deinit queue m1 m2 = Some (Done m1)"
proof (cases "queue = NULL")
  case True
  with assms have "m1 = m0" by (simp add: q_deinit_def)
  with True show ?thesis by (simp add: q_deinit_def)
next
  case qn: False
  show ?thesis
  proof (cases "queues m0 queue")
    case None
    with assms qn show ?thesis by (simp add: q_deinit_def)
  next
    case (Some Q0)
    show ?thesis
    proof (cases "destroyed Q0 = 0")
      case False
      from assms q_deinit_destroyed_before [OF qn Some False, of m] have "m1 = m0" by simp
      with q_deinit_destroyed_before [OF qn Some False, of m2] show ?thesis by simp
    next
      case True
      note live = q_deinit_live_before [OF qn Some True, of m]
      have lk: "q_deinit_locked queue m = Some (Done m1)"
      proof (cases "write_lock_push queue m")
        case (Done m')
        then have "m' = m" by (rule write_lock_push_Done)
        with assms live Done show ?thesis by simp
      next
        case Fault
        with assms live show ?thesis by simp
      next
        case Blocked
        with assms live show ?thesis by simp
      qed
      from q_deinit_locked_destroyed [OF lk] obtain Q1
        where "queues m1 queue = Some Q1" "destroyed Q1 \<noteq> 0" by blast
      then show ?thesis by (rule q_deinit_destroyed_before [OF qn])
    qed
  qed
qed

text \<open>
  The queue with two elements: the first \<open>q_deinit\<close> frees both nodes, the second
  changes nothing.
\<close>

theorem q_deinit_idempotent_witness:
  "q_deinit 1 two_node_mem two_node_mem = Some (Done torn_down_mem)
   \<and> q_deinit 1 torn_down_mem live_empty_mem = Some (Done torn_down_mem)"
proof -
  have h: "q_deinit 1 two_node_mem two_node_mem = Some (Done torn_down_mem)"
    by (simp add: q_deinit_def two_node_mem_def two_node_queue_def torn_down_mem_def
        torn_down_queue_def write_lock_push_def get_queue_def q_deinit_locked_def deinit_loop.simps get_node_def
        free_def upd_queue_def write_unlock_def fun_eq_iff)
  from q_deinit_idempotent [OF h, of live_empty_mem] h show ?thesis by simp
qed

section \<open>Operations on a destroyed queue\<close>

lemma write_lock_push_destroyed:
  assumes "queue \<noteq> NULL" "queues m queue = Some Q" "destroyed Q \<noteq> 0"
  shows "write_lock_push queue m = Done m"
  using assms by (simp add: write_lock_push_def get_queue_def)

lemma write_lock_pop_destroyed:
  assumes "queue \<noteq> NULL" "queues m queue = Some Q" "destroyed Q \<noteq> 0"
  shows "write_lock_pop queue m = Done m"
  using assms by (simp add: write_lock_pop_def get_queue_def)

lemma q_push_front_locked_destroyed:
  assumes "queue \<noteq> NULL" "queues m queue = Some Q" "destroyed Q \<noteq> 0"
  shows "q_push_front_locked queue obj m = Done (EXIT_FAILURE, m)"
  using assms by (simp add: q_push_front_locked_def get_queue_def write_unlock_def)

lemma q_push_back_locked_destroyed:
  assumes "queue \<noteq> NULL" "queues m queue = Some Q" "destroyed Q \<noteq> 0"
  shows "q_push_back_locked queue obj m = Done (EXIT_FAILURE, m)"
  using assms by (simp add: q_push_back_locked_def get_queue_def write_unlock_def)

lemma q_pop_front_locked_destroyed:
  assumes "queue \<noteq> NULL" "queues m queue = Some Q" "destroyed Q \<noteq> 0"
  shows "q_pop_front_locked queue m = Done (NULL, m)"
  using assms by (simp add: q_pop_front_locked_def get_queue_def write_unlock_def)

lemma q_pop_back_locked_destroyed:
  assumes "queue \<noteq> NULL" "queues m queue = Some Q" "destroyed Q \<noteq> 0"
  shows "q_pop_back_locked queue m = Done (NULL, m)"
  using assms by (simp add: q_pop_back_locked_def get_queue_def write_unlock_def)

lemma read_lock_unlock:
  assumes "queue \<noteq> NULL" "queues m queue = Some Q"
  shows "read_unlock queue (m\<lparr>queues := (queues m)(queue \<mapsto> Q\<lparr>readers := readers Q + 1\<rparr>)\<rparr>)
         = Done m"
  using assms by (simp add: read_unlock_def upd_queue_def fun_upd_idem)

lemma q_push_front_destroyed:
  assumes "queue \<noteq> NULL"
    and "queues m0 queue = Some Q0" and "queues m queue = Some Q"
    and "destroyed Q0 \<noteq> 0 \<or> destroyed Q \<noteq> 0"
  shows "q_push_front queue obj m0 m =
           Done (EXIT_FAILURE, if obj = NULL \<or> destroyed Q0 \<noteq> 0 then m0 else m)"
  using assms
  by (auto simp: q_push_front_def get_queue_def write_lock_push_destroyed
      q_push_front_locked_destroyed)

lemma q_push_back_destroyed:
  assumes "queue \<noteq> NULL"
    and "queues m0 queue = Some Q0" and "queues m queue = Some Q"
    and "destroyed Q0 \<noteq> 0 \<or> destroyed Q \<noteq> 0"
  shows "q_push_back queue obj m0 m =
           Done (EXIT_FAILURE, if obj = NULL \<or> destroyed Q0 \<noteq> 0 then m0 else m)"
  using assms
  by (auto simp: q_push_back_def get_queue_def write_lock_push_destroyed
      q_push_back_locked_destroyed)

lemma q_pop_front_destroyed:
  assumes "queue \<noteq> NULL"
    and "queues m0 queue = Some Q0" and "queues m queue = Some Q"
    and "destroyed Q0 \<noteq> 0 \<or> destroyed Q \<noteq> 0"
  shows "q_pop_front queue m0 m = Done (NULL, if destroyed Q0 \<noteq> 0 then m0 else m)"
  using assms
  by (auto simp: q_pop_front_def get_queue_def write_lock_pop_destroyed
      q_pop_front_locked_destroyed)

lemma q_pop_back_destroyed:
  assumes "queue \<noteq> NULL"
    and "queues m0 queue = Some Q0" and "queues m queue = Some Q"
    and "destroyed Q0 \<noteq> 0 \<or> destroyed Q \<noteq> 0"
  shows "q_pop_back queue m0 m = Done (NULL, if destroyed Q0 \<noteq> 0 then m0 else m)"
  using assms
  by (auto simp: q_pop_back_def get_queue_def write_lock_pop_destroyed
      q_pop_back_locked_destroyed)

lemma q_traverse_destroyed:
  assumes "queue \<noteq> NULL"
    and "queues m0 queue = Some Q0" and "queues m queue = Some Q"
    and "destroyed Q0 \<noteq> 0 \<or> destroyed Q \<noteq> 0"
  shows "q_traverse queue (Some f) m0 m u =
           Some (Done (EXIT_FAILURE, if destroyed Q0 \<noteq> 0 then m0 else m, u))"
proof (cases "destroyed Q0 = 0")
  case True
  with assms(4) have d: "destroyed Q \<noteq> 0" by simp
  let ?m1 = "m\<lparr>queues := (queues m)(queue \<mapsto> Q\<lparr>readers := readers Q + 1\<rparr>)\<rparr>"
  have rl: "read_lock queue m = Done ?m1"
    using assms(1,3) d by (intro read_lock_not_blocked) auto
  have q1: "queues ?m1 queue = Some (Q\<lparr>readers := readers Q + 1\<rparr>)" by simp
  from assms(1,2) True d rl q1 read_lock_unlock [OF assms(1,3)] show ?thesis
    by (simp add: q_traverse_def del: fun_upd_apply)
next
  case False
  with assms show ?thesis by (simp add: q_traverse_def)
qed

text \<open>
  C3.  On a destroyed queue each operation fails and leaves the memory as it found
  it: \<open>q_push_front\<close> and \<open>q_push_back\<close> return failure, \<open>q_pop_front\<close> and
  \<open>q_pop_back\<close> return null, \<open>q_traverse\<close> returns failure and the caller's
  data \<open>u\<close> is as before (the callback was not called).  The queue is destroyed
  either when the call is entered (\<open>Q0\<close>, in \<open>m0\<close>) or when the thread has the
  mutex after waiting (\<open>Q\<close>, in \<open>m\<close>); the memory returned is the one in which
  the call found the flag set, whole, so head, tail, readers and destroyed are
  unchanged.
\<close>

theorem destroyed_queue_operations_fail:
  assumes "queue \<noteq> NULL"
    and "queues m0 queue = Some Q0" and "queues m queue = Some Q"
    and "destroyed Q0 \<noteq> 0 \<or> destroyed Q \<noteq> 0"
  shows "q_push_front queue obj m0 m =
           Done (EXIT_FAILURE, if obj = NULL \<or> destroyed Q0 \<noteq> 0 then m0 else m)
       \<and> q_push_back queue obj m0 m =
           Done (EXIT_FAILURE, if obj = NULL \<or> destroyed Q0 \<noteq> 0 then m0 else m)
       \<and> q_pop_front queue m0 m = Done (NULL, if destroyed Q0 \<noteq> 0 then m0 else m)
       \<and> q_pop_back queue m0 m = Done (NULL, if destroyed Q0 \<noteq> 0 then m0 else m)
       \<and> q_traverse queue (Some f) m0 m u =
           Some (Done (EXIT_FAILURE, if destroyed Q0 \<noteq> 0 then m0 else m, u))"
  by (intro conjI q_push_front_destroyed [OF assms] q_push_back_destroyed [OF assms]
      q_pop_front_destroyed [OF assms] q_pop_back_destroyed [OF assms]
      q_traverse_destroyed [OF assms])

text \<open>
  The queue with two elements is destroyed by another thread while the call waits,
  and the queue is destroyed before the call.
\<close>

theorem destroyed_queue_operations_fail_witness:
  "(1::addr) \<noteq> NULL \<and> queues two_node_mem 1 = Some two_node_queue
   \<and> queues torn_down_mem 1 = Some torn_down_queue
   \<and> destroyed two_node_queue = 0 \<and> destroyed torn_down_queue = 1
   \<and> q_push_front 1 100 two_node_mem torn_down_mem = Done (EXIT_FAILURE, torn_down_mem)
   \<and> q_push_back 1 100 two_node_mem torn_down_mem = Done (EXIT_FAILURE, torn_down_mem)
   \<and> q_pop_front 1 two_node_mem torn_down_mem = Done (NULL, torn_down_mem)
   \<and> q_pop_back 1 two_node_mem torn_down_mem = Done (NULL, torn_down_mem)
   \<and> q_traverse 1 (Some (#)) two_node_mem torn_down_mem [] =
        Some (Done (EXIT_FAILURE, torn_down_mem, []))"
proof -
  have h1: "(1::addr) \<noteq> NULL" by simp
  have h2: "queues two_node_mem 1 = Some two_node_queue" by (simp add: two_node_mem_def)
  have h3: "queues torn_down_mem 1 = Some torn_down_queue" by (simp add: torn_down_mem_def)
  have h4: "destroyed two_node_queue \<noteq> 0 \<or> destroyed torn_down_queue \<noteq> 0"
    by (simp add: torn_down_queue_def)
  have d: "destroyed two_node_queue = 0" by (simp add: two_node_queue_def)
  have d': "destroyed torn_down_queue = 1" by (simp add: torn_down_queue_def)
  from destroyed_queue_operations_fail [OF h1 h2 h3 h4, of 100 "(#)" "[]"] d d' h1 h2 h3
  show ?thesis by simp
qed

section \<open>Lists in the heap\<close>

lemma dlseg_frame:
  "a \<notin> set as \<Longrightarrow> dlseg (h(a := v)) pv p as e = dlseg h pv p as e"
  by (induction as arbitrary: pv p) (auto split: option.splits)

lemma dlseg_snoc:
  "dlseg h pv p (as @ [b]) e =
     (dlseg h pv p as b \<and> b \<noteq> NULL \<and>
      (case h b of None \<Rightarrow> False | Some n \<Rightarrow> prev n = last (pv # as) \<and> next n = e))"
  by (induction as arbitrary: pv p) (auto split: option.splits)

lemma dlseg_allocated:
  "dlseg h pv p as e \<Longrightarrow> a \<in> set as \<Longrightarrow> a \<noteq> NULL \<and> h a \<noteq> None"
  by (induction as arbitrary: pv p) (auto split: option.splits)

lemma dlseg_fresh:
  "dlseg h pv p as e \<Longrightarrow> h a = None \<Longrightarrow> a \<notin> set as"
  using dlseg_allocated by fastforce

lemma queue_inv_Q:
  assumes "queue_inv queue m as" "queues m queue = Some Q"
  shows "queue \<noteq> NULL" "dlseg (nodes m) NULL (head Q) as NULL"
    "tail Q = last (NULL # as)" "distinct as"
  using assms by (simp_all add: queue_inv_def)

lemma queue_inv_head_null:
  assumes "queue_inv queue m as" "queues m queue = Some Q"
  shows "head Q = NULL \<longleftrightarrow> as = []"
  using queue_inv_Q(2) [OF assms] by (cases as) auto

lemma queue_inv_tail_null:
  assumes "queue_inv queue m as" "queues m queue = Some Q"
  shows "tail Q = NULL \<longleftrightarrow> as = []"
proof (cases "as = []")
  case True
  with queue_inv_Q(3) [OF assms] show ?thesis by simp
next
  case False
  then have "last as \<in> set as" by simp
  from dlseg_allocated [OF queue_inv_Q(2) [OF assms] this] False queue_inv_Q(3) [OF assms]
  show ?thesis by simp
qed

section \<open>The allocator\<close>

lemma malloc_ok:
  "tape m = (p, j) # rest \<Longrightarrow> p \<noteq> NULL \<Longrightarrow> nodes m p = None \<Longrightarrow>
   malloc m = (p, m\<lparr>tape := rest, nodes := (nodes m)(p \<mapsto> j)\<rparr>)"
  by (simp add: malloc_def)

lemma malloc_success:
  assumes "fst (malloc m) \<noteq> NULL"
  shows "\<exists>j rest. tape m = (fst (malloc m), j) # rest \<and> nodes m (fst (malloc m)) = None"
  using assms by (auto simp: malloc_def split: list.splits if_splits)

lemma malloc_failure:
  assumes "fst (malloc m) = NULL"
  shows "queues (snd (malloc m)) = queues m" "nodes (snd (malloc m)) = nodes m"
    "tape (snd (malloc m)) = tl (tape m)"
  using assms by (auto simp: malloc_def split: list.splits if_splits)

section \<open>Effect of the push operations\<close>

lemma q_push_front_locked_first:
  assumes "queue \<noteq> NULL" "queues m queue = Some Q" "destroyed Q = 0" "obj \<noteq> NULL"
    and "head Q = NULL" "tail Q = NULL"
    and "tape m = (p, j) # rest" "p \<noteq> NULL" "nodes m p = None"
  shows "q_push_front_locked queue obj m =
     Done (EXIT_SUCCESS,
       \<lparr>queues = (queues m)(queue \<mapsto> Q\<lparr>head := p, tail := p\<rparr>),
        nodes = (nodes m)(p \<mapsto> j\<lparr>object := obj, prev := NULL, next := NULL\<rparr>),
        tape = rest\<rparr>)"
  using assms
  by (simp add: q_push_front_locked_def get_queue_def create_first_node_def malloc_ok
      upd_queue_def upd_node_def write_unlock_def)

lemma q_push_front_locked_more:
  assumes "queue \<noteq> NULL" "queues m queue = Some Q" "destroyed Q = 0"
    and "head Q = a" "a \<noteq> NULL" "nodes m a = Some hn"
    and "tape m = (p, j) # rest" "p \<noteq> NULL" "nodes m p = None"
  shows "q_push_front_locked queue obj m =
     Done (EXIT_SUCCESS,
       \<lparr>queues = (queues m)(queue \<mapsto> Q\<lparr>head := p\<rparr>),
        nodes = (nodes m)(p \<mapsto> j\<lparr>object := obj, prev := NULL, next := a\<rparr>, a \<mapsto> hn\<lparr>prev := p\<rparr>),
        tape = rest\<rparr>)"
proof -
  from assms(6,9) have "a \<noteq> p" by auto
  with assms show ?thesis
    by (simp add: q_push_front_locked_def get_queue_def malloc_ok
      upd_queue_def upd_node_def write_unlock_def)
qed
lemma payloads_frame:
  "(\<And>b. b \<in> set as \<Longrightarrow> map_option object (nodes m' b) = map_option object (nodes m b)) \<Longrightarrow>
   payloads m' as = payloads m as"
  unfolding payloads_def
proof (rule map_cong [OF refl])
  fix b
  assume "(\<And>b. b \<in> set as \<Longrightarrow>
    map_option object (nodes m' b) = map_option object (nodes m b))" and "b \<in> set as"
  then have "map_option object (nodes m' b) = map_option object (nodes m b)" by simp
  then show "(case nodes m' b of None \<Rightarrow> NULL | Some n \<Rightarrow> object n) =
             (case nodes m b of None \<Rightarrow> NULL | Some n \<Rightarrow> object n)"
    by (cases "nodes m' b"; cases "nodes m b") simp_all
qed

lemma q_push_front_locked_ok:
  assumes inv: "queue_inv queue m as" and Q: "queues m queue = Some Q"
    and live: "destroyed Q = 0" and obj: "obj \<noteq> NULL"
    and ok: "fst (malloc m) = p" "p \<noteq> NULL"
  shows "\<exists>m'. q_push_front_locked queue obj m = Done (EXIT_SUCCESS, m')
      \<and> queue_inv queue m' (p # as) \<and> payloads m' (p # as) = obj # payloads m as
      \<and> queues m' queue = Some (Q\<lparr>head := p, tail := (if as = [] then p else tail Q)\<rparr>)
      \<and> tape m' = tl (tape m)
      \<and> (\<forall>b. b \<noteq> p \<longrightarrow> (nodes m' b = None \<longleftrightarrow> nodes m b = None)) \<and> nodes m' p \<noteq> None"
proof -
  note q = queue_inv_Q [OF inv Q]
  from malloc_success [of m] ok obtain j rest
    where tp: "tape m = (p, j) # rest" and fresh: "nodes m p = None" by auto
  have pnew: "p \<notin> set as" by (rule dlseg_fresh [OF q(2) fresh])
  show ?thesis
  proof (cases as)
    case Nil
    with q have hd: "head Q = NULL" and tl: "tail Q = NULL" by simp_all
    let ?m' = "\<lparr>queues = (queues m)(queue \<mapsto> Q\<lparr>head := p, tail := p\<rparr>),
        nodes = (nodes m)(p \<mapsto> j\<lparr>object := obj, prev := NULL, next := NULL\<rparr>),
        tape = rest\<rparr>"
    have run: "q_push_front_locked queue obj m = Done (EXIT_SUCCESS, ?m')"
      by (rule q_push_front_locked_first [OF q(1) Q live obj hd tl tp ok(2) fresh])
    have "queue_inv queue ?m' [p]"
      using q(1) ok(2) by (simp add: queue_inv_def)
    moreover have "payloads ?m' [p] = [obj]" by (simp add: payloads_def)
    ultimately show ?thesis
      using run Nil tp by (intro exI [of _ ?m']) (simp add: payloads_def)
  next
    case (Cons a as')
    with q(2) obtain hn where a: "head Q = a" "a \<noteq> NULL" "nodes m a = Some hn"
      and hn: "prev hn = NULL" "dlseg (nodes m) a (next hn) as' NULL"
      by (auto split: option.splits)
    from q(4) Cons have na: "a \<notin> set as'" and d: "distinct as'" by simp_all
    from pnew Cons have pa: "p \<noteq> a" and pn: "p \<notin> set as'" by simp_all
    let ?h' = "(nodes m)(p \<mapsto> j\<lparr>object := obj, prev := NULL, next := a\<rparr>, a \<mapsto> hn\<lparr>prev := p\<rparr>)"
    let ?m' = "\<lparr>queues = (queues m)(queue \<mapsto> Q\<lparr>head := p\<rparr>), nodes = ?h', tape = rest\<rparr>"
    have run: "q_push_front_locked queue obj m = Done (EXIT_SUCCESS, ?m')"
      by (rule q_push_front_locked_more [OF q(1) Q live a tp ok(2) fresh])
    have seg: "dlseg ?h' a (next hn) as' NULL"
      using hn(2) na pn by (simp add: dlseg_frame)
    have inv': "queue_inv queue ?m' (p # as)"
      using q(1,3,4) ok(2) a pa pnew seg Cons by (simp add: queue_inv_def)
    have "payloads ?m' as = payloads m as"
      using pnew a(3) by (intro payloads_frame) auto
    then have pl: "payloads ?m' (p # as) = obj # payloads m as"
      using pa by (simp add: payloads_def)
    show ?thesis
      using run inv' pl Cons tp fresh a(3) by (intro exI [of _ ?m']) simp
  qed
qed

lemma q_push_front_locked_alloc_failure:
  assumes "queue \<noteq> NULL" "queues m queue = Some Q" "destroyed Q = 0"
    and "head Q \<noteq> NULL" "fst (malloc m) = NULL"
  shows "q_push_front_locked queue obj m = Done (EXIT_FAILURE, snd (malloc m))"
  using assms
  by (simp add: q_push_front_locked_def get_queue_def write_unlock_def split_def)

lemma q_push_back_locked_alloc_failure:
  assumes "queue \<noteq> NULL" "queues m queue = Some Q" "destroyed Q = 0"
    and "tail Q \<noteq> NULL" "fst (malloc m) = NULL"
  shows "q_push_back_locked queue obj m = Done (EXIT_FAILURE, snd (malloc m))"
  using assms
  by (simp add: q_push_back_locked_def get_queue_def write_unlock_def split_def)

lemma create_first_node_alloc_failure:
  assumes "queue \<noteq> NULL" "queues m queue = Some Q" "obj \<noteq> NULL"
    and "head Q = NULL" "tail Q = NULL" "fst (malloc m) = NULL"
  shows "create_first_node queue obj m = Fault"
proof -
  obtain p m1 where pm: "malloc m = (p, m1)" by (cases "malloc m")
  with assms(6) have p: "p = NULL" by simp
  from malloc_failure(1) [OF assms(6)] pm assms(2) have "queues m1 queue = Some Q" by simp
  with assms(1-5) pm p show ?thesis
    by (simp add: create_first_node_def get_queue_def upd_queue_def upd_node_def)
qed

lemma q_push_front_locked_first_alloc_failure:
  assumes "queue \<noteq> NULL" "queues m queue = Some Q" "destroyed Q = 0" "obj \<noteq> NULL"
    and "head Q = NULL" "tail Q = NULL" "fst (malloc m) = NULL"
  shows "q_push_front_locked queue obj m = Fault"
  using assms create_first_node_alloc_failure [OF assms(1,2,4,5,6,7)]
  by (simp add: q_push_front_locked_def get_queue_def)

lemma q_push_back_locked_first_alloc_failure:
  assumes "queue \<noteq> NULL" "queues m queue = Some Q" "destroyed Q = 0" "obj \<noteq> NULL"
    and "head Q = NULL" "tail Q = NULL" "fst (malloc m) = NULL"
  shows "q_push_back_locked queue obj m = Fault"
  using assms create_first_node_alloc_failure [OF assms(1,2,4,5,6,7)]
  by (simp add: q_push_back_locked_def get_queue_def)

lemma q_push_back_locked_first:
  assumes "queue \<noteq> NULL" "queues m queue = Some Q" "destroyed Q = 0" "obj \<noteq> NULL"
    and "head Q = NULL" "tail Q = NULL"
    and "tape m = (p, j) # rest" "p \<noteq> NULL" "nodes m p = None"
  shows "q_push_back_locked queue obj m =
     Done (EXIT_SUCCESS,
       \<lparr>queues = (queues m)(queue \<mapsto> Q\<lparr>head := p, tail := p\<rparr>),
        nodes = (nodes m)(p \<mapsto> j\<lparr>object := obj, prev := NULL, next := NULL\<rparr>),
        tape = rest\<rparr>)"
  using assms
  by (simp add: q_push_back_locked_def get_queue_def create_first_node_def malloc_ok
      upd_queue_def upd_node_def write_unlock_def)

lemma q_push_back_locked_more:
  assumes "queue \<noteq> NULL" "queues m queue = Some Q" "destroyed Q = 0"
    and "tail Q = a" "a \<noteq> NULL" "nodes m a = Some tn"
    and "tape m = (p, j) # rest" "p \<noteq> NULL" "nodes m p = None"
  shows "q_push_back_locked queue obj m =
     Done (EXIT_SUCCESS,
       \<lparr>queues = (queues m)(queue \<mapsto> Q\<lparr>tail := p\<rparr>),
        nodes = (nodes m)(p \<mapsto> j\<lparr>object := obj, prev := a, next := NULL\<rparr>, a \<mapsto> tn\<lparr>next := p\<rparr>),
        tape = rest\<rparr>)"
proof -
  from assms(6,9) have "a \<noteq> p" by auto
  with assms show ?thesis
    by (simp add: q_push_back_locked_def get_queue_def malloc_ok
      upd_queue_def upd_node_def write_unlock_def)
qed

lemma payloads_append:
  "payloads m (as @ bs) = payloads m as @ payloads m bs"
  by (simp add: payloads_def)

lemma q_push_back_locked_ok:
  assumes inv: "queue_inv queue m as" and Q: "queues m queue = Some Q"
    and live: "destroyed Q = 0" and obj: "obj \<noteq> NULL"
    and ok: "fst (malloc m) = p" "p \<noteq> NULL"
  shows "\<exists>m'. q_push_back_locked queue obj m = Done (EXIT_SUCCESS, m')
      \<and> queue_inv queue m' (as @ [p]) \<and> payloads m' (as @ [p]) = payloads m as @ [obj]
      \<and> queues m' queue = Some (Q\<lparr>head := (if as = [] then p else head Q), tail := p\<rparr>)
      \<and> tape m' = tl (tape m)
      \<and> (\<forall>b. b \<noteq> p \<longrightarrow> (nodes m' b = None \<longleftrightarrow> nodes m b = None)) \<and> nodes m' p \<noteq> None"
proof -
  note q = queue_inv_Q [OF inv Q]
  from malloc_success [of m] ok obtain j rest
    where tp: "tape m = (p, j) # rest" and fresh: "nodes m p = None" by auto
  have pnew: "p \<notin> set as" by (rule dlseg_fresh [OF q(2) fresh])
  show ?thesis
  proof (cases as rule: rev_cases)
    case Nil
    with q have hd: "head Q = NULL" and tl: "tail Q = NULL" by simp_all
    let ?m' = "\<lparr>queues = (queues m)(queue \<mapsto> Q\<lparr>head := p, tail := p\<rparr>),
        nodes = (nodes m)(p \<mapsto> j\<lparr>object := obj, prev := NULL, next := NULL\<rparr>),
        tape = rest\<rparr>"
    have run: "q_push_back_locked queue obj m = Done (EXIT_SUCCESS, ?m')"
      by (rule q_push_back_locked_first [OF q(1) Q live obj hd tl tp ok(2) fresh])
    have "queue_inv queue ?m' [p]"
      using q(1) ok(2) by (simp add: queue_inv_def)
    moreover have "payloads ?m' [p] = [obj]" by (simp add: payloads_def)
    ultimately show ?thesis
      using run Nil tp by (intro exI [of _ ?m']) (simp add: payloads_def)
  next
    case (snoc as' a)
    with q(3) have tl: "tail Q = a" by simp
    from q(2) snoc obtain tn where a: "a \<noteq> NULL" "nodes m a = Some tn"
      and tn: "prev tn = last (NULL # as')" "next tn = NULL"
      and seg: "dlseg (nodes m) NULL (head Q) as' a"
      by (auto simp: dlseg_snoc split: option.splits)
    from q(4) snoc have na: "a \<notin> set as'" and d: "distinct as'" by simp_all
    from pnew snoc have pa: "p \<noteq> a" and pn: "p \<notin> set as'" by simp_all
    let ?h' = "(nodes m)(p \<mapsto> j\<lparr>object := obj, prev := a, next := NULL\<rparr>, a \<mapsto> tn\<lparr>next := p\<rparr>)"
    let ?m' = "\<lparr>queues = (queues m)(queue \<mapsto> Q\<lparr>tail := p\<rparr>), nodes = ?h', tape = rest\<rparr>"
    have run: "q_push_back_locked queue obj m = Done (EXIT_SUCCESS, ?m')"
      by (rule q_push_back_locked_more [OF q(1) Q live tl a tp ok(2) fresh])
    have seg': "dlseg ?h' NULL (head Q) as' a"
      using seg na pn by (simp add: dlseg_frame)
    have seg_a: "dlseg ?h' NULL (head Q) (as' @ [a]) p"
      using seg' a(1) tn by (simp add: dlseg_snoc)
    have "dlseg ?h' NULL (head Q) ((as' @ [a]) @ [p]) NULL"
      using seg_a ok(2) pa by (subst dlseg_snoc) simp
    then have inv': "queue_inv queue ?m' (as @ [p])"
      using q(1,4) pnew snoc by (simp add: queue_inv_def)
    have "payloads ?m' as = payloads m as"
      using pnew a(2) by (intro payloads_frame) auto
    then have pl: "payloads ?m' (as @ [p]) = payloads m as @ [obj]"
      using pa by (simp add: payloads_append) (simp add: payloads_def)
    show ?thesis
      using run inv' pl snoc tp fresh a(2) by (intro exI [of _ ?m']) simp
  qed
qed

section \<open>Effect of the pop operations\<close>

lemma q_pop_front_locked_single:
  assumes "queue \<noteq> NULL" "queues m queue = Some Q" "destroyed Q = 0"
    and "head Q = a" "tail Q = a" "a \<noteq> NULL" "nodes m a = Some hn"
  shows "q_pop_front_locked queue m =
     Done (object hn,
       \<lparr>queues = (queues m)(queue \<mapsto> Q\<lparr>head := NULL, tail := NULL\<rparr>),
        nodes = (nodes m)(a := None),
        tape = tape m\<rparr>)"
  using assms
  by (simp add: q_pop_front_locked_def get_queue_def get_node_def free_def
      upd_queue_def write_unlock_def)

lemma q_pop_front_locked_more:
  assumes "queue \<noteq> NULL" "queues m queue = Some Q" "destroyed Q = 0"
    and "head Q = a" "tail Q \<noteq> a" "a \<noteq> NULL" "nodes m a = Some hn"
    and "next hn = b" "b \<noteq> NULL" "b \<noteq> a" "nodes m b = Some bn"
  shows "q_pop_front_locked queue m =
     Done (object hn,
       \<lparr>queues = (queues m)(queue \<mapsto> Q\<lparr>head := b\<rparr>),
        nodes = (nodes m)(a := None, b \<mapsto> bn\<lparr>prev := NULL\<rparr>),
        tape = tape m\<rparr>)"
  using assms
  by (simp add: q_pop_front_locked_def get_queue_def get_node_def free_def
      upd_queue_def upd_node_def write_unlock_def)

lemma q_pop_front_locked_ok:
  assumes inv: "queue_inv queue m (a # as)" and Q: "queues m queue = Some Q"
    and live: "destroyed Q = 0"
  shows "\<exists>m'. q_pop_front_locked queue m = Done (hd (payloads m (a # as)), m')
      \<and> queue_inv queue m' as \<and> payloads m' as = tl (payloads m (a # as))
      \<and> queues m' queue =
          Some (Q\<lparr>head := (if as = [] then NULL else hd as),
                  tail := (if as = [] then NULL else tail Q)\<rparr>)
      \<and> tape m' = tape m
      \<and> (\<forall>b. b \<noteq> a \<longrightarrow> (nodes m' b = None \<longleftrightarrow> nodes m b = None)) \<and> nodes m' a = None"
proof -
  note q = queue_inv_Q [OF inv Q]
  from q(2) obtain hn where a: "head Q = a" "a \<noteq> NULL" "nodes m a = Some hn"
    and hn: "prev hn = NULL" "dlseg (nodes m) a (next hn) as NULL"
    by (auto split: option.splits)
  from q(4) have na: "a \<notin> set as" and d: "distinct as" by simp_all
  have obj: "hd (payloads m (a # as)) = object hn" using a(3) by (simp add: payloads_def)
  show ?thesis
  proof (cases as)
    case Nil
    with q(3) have tl: "tail Q = a" by simp
    let ?m' = "\<lparr>queues = (queues m)(queue \<mapsto> Q\<lparr>head := NULL, tail := NULL\<rparr>),
        nodes = (nodes m)(a := None), tape = tape m\<rparr>"
    have run: "q_pop_front_locked queue m = Done (object hn, ?m')"
      by (rule q_pop_front_locked_single [OF q(1) Q live a(1) tl a(2,3)])
    have "queue_inv queue ?m' []" using q(1) by (simp add: queue_inv_def)
    then show ?thesis
      using run Nil obj by (intro exI [of _ ?m']) (simp add: payloads_def)
  next
    case (Cons b as')
    with hn(2) obtain bn where b: "next hn = b" "b \<noteq> NULL" "nodes m b = Some bn"
      and bn: "prev bn = a" "dlseg (nodes m) b (next bn) as' NULL"
      by (auto split: option.splits)
    from na Cons have ba: "b \<noteq> a" and na': "a \<notin> set as'" by auto
    from d Cons have nb: "b \<notin> set as'" by simp
    have "last (a # as) \<in> set as" using Cons by simp
    with na q(3) have tl: "tail Q \<noteq> a" by auto
    let ?h' = "(nodes m)(a := None, b \<mapsto> bn\<lparr>prev := NULL\<rparr>)"
    let ?m' = "\<lparr>queues = (queues m)(queue \<mapsto> Q\<lparr>head := b\<rparr>), nodes = ?h', tape = tape m\<rparr>"
    have run: "q_pop_front_locked queue m = Done (object hn, ?m')"
      by (rule q_pop_front_locked_more [OF q(1) Q live a(1) tl a(2,3) b(1,2) ba b(3)])
    have seg: "dlseg ?h' b (next bn) as' NULL"
      using bn(2) na' nb by (simp add: dlseg_frame)
    have inv': "queue_inv queue ?m' as"
      using q(1,3) d b(2) seg Cons by (simp add: queue_inv_def)
    have pl: "payloads ?m' as = payloads m as"
      using na b(3) by (intro payloads_frame) auto
    show ?thesis
      using run inv' pl Cons obj b(3) ba
      by (intro exI [of _ ?m']) (simp add: payloads_def)
  qed
qed

lemma q_pop_back_locked_single:
  assumes "queue \<noteq> NULL" "queues m queue = Some Q" "destroyed Q = 0"
    and "head Q = a" "tail Q = a" "a \<noteq> NULL" "nodes m a = Some tn"
  shows "q_pop_back_locked queue m =
     Done (object tn,
       \<lparr>queues = (queues m)(queue \<mapsto> Q\<lparr>head := NULL, tail := NULL\<rparr>),
        nodes = (nodes m)(a := None),
        tape = tape m\<rparr>)"
  using assms
  by (simp add: q_pop_back_locked_def get_queue_def get_node_def free_def
      upd_queue_def write_unlock_def)

lemma q_pop_back_locked_more:
  assumes "queue \<noteq> NULL" "queues m queue = Some Q" "destroyed Q = 0"
    and "tail Q = a" "head Q \<noteq> a" "a \<noteq> NULL" "nodes m a = Some tn"
    and "prev tn = b" "b \<noteq> NULL" "b \<noteq> a" "nodes m b = Some bn"
  shows "q_pop_back_locked queue m =
     Done (object tn,
       \<lparr>queues = (queues m)(queue \<mapsto> Q\<lparr>tail := b\<rparr>),
        nodes = (nodes m)(a := None, b \<mapsto> bn\<lparr>next := NULL\<rparr>),
        tape = tape m\<rparr>)"
  using assms
  by (simp add: q_pop_back_locked_def get_queue_def get_node_def free_def
      upd_queue_def upd_node_def write_unlock_def)

lemma q_pop_back_locked_ok:
  assumes inv: "queue_inv queue m (as @ [a])" and Q: "queues m queue = Some Q"
    and live: "destroyed Q = 0"
  shows "\<exists>m'. q_pop_back_locked queue m = Done (last (payloads m (as @ [a])), m')
      \<and> queue_inv queue m' as \<and> payloads m' as = butlast (payloads m (as @ [a]))
      \<and> queues m' queue =
          Some (Q\<lparr>head := (if as = [] then NULL else head Q),
                  tail := (if as = [] then NULL else last as)\<rparr>)
      \<and> tape m' = tape m
      \<and> (\<forall>b. b \<noteq> a \<longrightarrow> (nodes m' b = None \<longleftrightarrow> nodes m b = None)) \<and> nodes m' a = None"
proof -
  note q = queue_inv_Q [OF inv Q]
  from q(3) have tl: "tail Q = a" by simp
  from q(2) obtain tn where a: "a \<noteq> NULL" "nodes m a = Some tn"
    and tn: "prev tn = last (NULL # as)" "next tn = NULL"
    and seg: "dlseg (nodes m) NULL (head Q) as a"
    by (auto simp: dlseg_snoc split: option.splits)
  from q(4) have na: "a \<notin> set as" and d: "distinct as" by simp_all
  have obj: "last (payloads m (as @ [a])) = object tn"
    using a(2) by (simp add: payloads_def)
  have bl: "butlast (payloads m (as @ [a])) = payloads m as"
    by (simp add: payloads_def)
  show ?thesis
  proof (cases as rule: rev_cases)
    case Nil
    with seg have hd: "head Q = a" by simp
    let ?m' = "\<lparr>queues = (queues m)(queue \<mapsto> Q\<lparr>head := NULL, tail := NULL\<rparr>),
        nodes = (nodes m)(a := None), tape = tape m\<rparr>"
    have run: "q_pop_back_locked queue m = Done (object tn, ?m')"
      by (rule q_pop_back_locked_single [OF q(1) Q live hd tl a])
    have "queue_inv queue ?m' []" using q(1) by (simp add: queue_inv_def)
    then show ?thesis
      using run Nil obj by (intro exI [of _ ?m']) (simp add: payloads_def)
  next
    case (snoc as' b)
    with tn(1) have pb: "prev tn = b" by simp
    from seg snoc obtain bn where b: "b \<noteq> NULL" "nodes m b = Some bn"
      and bn: "prev bn = last (NULL # as')" "next bn = a"
      and seg': "dlseg (nodes m) NULL (head Q) as' b"
      by (auto simp: dlseg_snoc split: option.splits)
    from na snoc have ba: "b \<noteq> a" and na': "a \<notin> set as'" by auto
    from d snoc have nb: "b \<notin> set as'" by simp
    have "head Q \<in> set as"
    proof (cases as)
      case Nil
      with snoc show ?thesis by simp
    next
      case (Cons c cs)
      with seg show ?thesis by simp
    qed
    with na have hd: "head Q \<noteq> a" by auto
    let ?h' = "(nodes m)(a := None, b \<mapsto> bn\<lparr>next := NULL\<rparr>)"
    let ?m' = "\<lparr>queues = (queues m)(queue \<mapsto> Q\<lparr>tail := b\<rparr>), nodes = ?h', tape = tape m\<rparr>"
    have run: "q_pop_back_locked queue m = Done (object tn, ?m')"
      by (rule q_pop_back_locked_more [OF q(1) Q live tl hd a pb b(1) ba b(2)])
    have seg2: "dlseg ?h' NULL (head Q) as' b"
      using seg' na' nb by (simp add: dlseg_frame)
    have "dlseg ?h' NULL (head Q) (as' @ [b]) NULL"
      using seg2 b(1) bn(1) by (simp add: dlseg_snoc)
    then have inv': "queue_inv queue ?m' as"
      using q(1) d snoc by (simp add: queue_inv_def)
    have pl: "payloads ?m' as = payloads m as"
      using na b(2) by (intro payloads_frame) auto
    show ?thesis
      using run inv' pl snoc obj bl b(2) ba
      by (intro exI [of _ ?m']) simp
  qed
qed

section \<open>The loops of traversal and teardown\<close>

lemma traverse_loop_dlseg:
  "dlseg (nodes m) pv p as NULL \<Longrightarrow>
   traverse_loop f m p u = Some (Done (fold f (payloads m as) u))"
proof (induction as arbitrary: pv p u)
  case Nil
  then show ?case by (simp add: traverse_loop.simps payloads_def)
next
  case (Cons a as)
  then obtain n where n: "nodes m a = Some n" "p = a" "a \<noteq> NULL"
    "dlseg (nodes m) a (next n) as NULL"
    by (auto split: option.splits)
  show ?case
    using Cons.IH [OF n(4), of "f (object n) u"] n(1,2,3)
    by (subst traverse_loop.simps) (simp add: payloads_def)
qed

lemma deinit_loop_dlseg:
  "dlseg (nodes m) pv p as NULL \<Longrightarrow> distinct as \<Longrightarrow>
   deinit_loop p m = Some (Done (m\<lparr>nodes := (\<lambda>a. if a \<in> set as then None else nodes m a)\<rparr>))"
proof (induction as arbitrary: pv p m)
  case Nil
  then show ?case by (simp add: deinit_loop.simps)
next
  case (Cons a as)
  then obtain n where n: "nodes m a = Some n" "p = a" "a \<noteq> NULL"
    "dlseg (nodes m) a (next n) as NULL"
    by (auto split: option.splits)
  let ?m1 = "m\<lparr>nodes := (nodes m)(a := None)\<rparr>"
  from Cons.prems(2) have na: "a \<notin> set as" and d: "distinct as" by auto
  have seg: "dlseg (nodes ?m1) a (next n) as NULL"
    using n(4) na by (simp add: dlseg_frame)
  have eq: "?m1\<lparr>nodes := (\<lambda>b. if b \<in> set as then None else nodes ?m1 b)\<rparr>
        = m\<lparr>nodes := (\<lambda>b. if b \<in> set (a # as) then None else nodes m b)\<rparr>"
    by (auto simp: fun_eq_iff)
  show ?case
    using Cons.IH [OF seg d] n(1,2,3) eq
    by (subst deinit_loop.simps) (simp add: get_node_def free_def)
qed

lemma fold_snoc_log:
  "fold (\<lambda>x t. t @ [x]) xs ys = ys @ xs"
  by (induction xs arbitrary: ys) simp_all

section \<open>Traversal\<close>

lemma q_traverse_run:
  assumes "queue_inv queue m as" and "as \<noteq> []"
    and "queues m0 queue = Some Q0" and "destroyed Q0 = 0"
    and "queues m queue = Some Q" and "destroyed Q = 0"
  shows "q_traverse queue (Some f) m0 m u =
           Some (Done (EXIT_SUCCESS, m, fold f (payloads m as) u))
       \<and> q_traverse queue (Some (\<lambda>x t. t @ [x])) m0 m [] =
           Some (Done (EXIT_SUCCESS, m, payloads m as))"
proof -
  note q = queue_inv_Q [OF assms(1,5)]
  from queue_inv_head_null [OF assms(1,5)] assms(2) have hd: "head Q \<noteq> NULL" by simp
  let ?m1 = "m\<lparr>queues := (queues m)(queue \<mapsto> Q\<lparr>readers := readers Q + 1\<rparr>)\<rparr>"
  have rl: "read_lock queue m = Done ?m1"
    using q(1) assms(5) hd by (intro read_lock_not_blocked) auto
  have q1: "queues ?m1 queue = Some (Q\<lparr>readers := readers Q + 1\<rparr>)" by simp
  have ru: "read_unlock queue ?m1 = Done m" by (rule read_lock_unlock [OF q(1) assms(5)])
  have seg: "dlseg (nodes ?m1) NULL (head Q) as NULL" using q(2) by simp
  have pl: "payloads ?m1 as = payloads m as" by (simp add: payloads_def)
  have "q_traverse queue (Some g) m0 m v =
           Some (Done (EXIT_SUCCESS, m, fold g (payloads m as) v))" for g :: "addr \<Rightarrow> 'b \<Rightarrow> 'b" and v
    using traverse_loop_dlseg [OF seg, of g v] q(1) assms(3,4,6) rl q1 ru pl
    by (simp add: q_traverse_def del: fun_upd_apply)
  from this [of f u] this [of "\<lambda>x t. t @ [x]" "[]"] show ?thesis
    by (simp add: fold_snoc_log)
qed

text \<open>
  C8.  On a queue that is not empty and not destroyed, with a callback \<open>f\<close> that
  is not null, \<open>q_traverse\<close> returns success; the caller's data is what the calls
  \<open>f x\<close> make of it, one call for each payload \<open>x\<close> of the list, from the front to
  the back (with the callback that records its argument, the record is the list of
  payloads); and the memory is unchanged, so head, tail, nodes and payloads are.
\<close>

theorem q_traverse_visits_payloads_in_order:
  assumes "queue_inv queue m as" and "as \<noteq> []"
    and "queues m0 queue = Some Q0" and "destroyed Q0 = 0"
    and "queues m queue = Some Q" and "destroyed Q = 0"
  shows "q_traverse queue (Some f) m0 m u =
           Some (Done (EXIT_SUCCESS, m, fold f (payloads m as) u))
       \<and> q_traverse queue (Some (\<lambda>x t. t @ [x])) m0 m [] =
           Some (Done (EXIT_SUCCESS, m, payloads m as))"
  using assms by (rule q_traverse_run)

text \<open>The queue with two elements, whose payloads are 100 and 101.\<close>

theorem q_traverse_visits_payloads_in_order_witness:
  "queue_inv 1 two_node_mem [10, 11] \<and> [10, 11] \<noteq> ([] :: addr list)
   \<and> queues two_node_mem 1 = Some two_node_queue \<and> destroyed two_node_queue = 0
   \<and> q_traverse 1 (Some (#)) two_node_mem two_node_mem [] =
        Some (Done (EXIT_SUCCESS, two_node_mem, [101, 100]))
   \<and> q_traverse 1 (Some (\<lambda>x t. t @ [x])) two_node_mem two_node_mem [] =
        Some (Done (EXIT_SUCCESS, two_node_mem, [100, 101]))"
proof -
  have h1: "queue_inv 1 two_node_mem [10, 11]"
    by (simp add: queue_inv_def two_node_mem_def two_node_queue_def)
  have h2: "[10, 11] \<noteq> ([] :: addr list)" by simp
  have h3: "queues two_node_mem 1 = Some two_node_queue" by (simp add: two_node_mem_def)
  have h4: "destroyed two_node_queue = 0" by (simp add: two_node_queue_def)
  have pl: "payloads two_node_mem [10, 11] = [100, 101]"
    by (simp add: payloads_def two_node_mem_def)
  from q_traverse_visits_payloads_in_order [OF h1 h2 h3 h4 h3 h4, of "(#)" "[]"] h1 h3 h4 pl
  show ?thesis by simp
qed

section \<open>Teardown\<close>

lemma q_deinit_run:
  assumes "queue_inv queue m as"
    and "queues m0 queue = Some Q0" and "destroyed Q0 = 0"
    and "queues m queue = Some Q" and "destroyed Q = 0"
  shows "q_deinit queue m0 m =
     (if readers Q \<noteq> 0 then Some Blocked
      else Some (Done
        \<lparr>queues = (queues m)(queue \<mapsto> Q\<lparr>head := NULL, tail := NULL, destroyed := 1\<rparr>),
         nodes = (\<lambda>a. if a \<in> set as then None else nodes m a),
         tape = tape m\<rparr>))"
proof (cases "readers Q = 0")
  case False
  with assms queue_inv_Q(1) [OF assms(1,4)] show ?thesis
    by (simp add: q_deinit_def write_lock_push_def get_queue_def)
next
  case True
  note q = queue_inv_Q [OF assms(1,4)]
  have wl: "write_lock_push queue m = Done m"
    using q(1) assms(4,5) True by (simp add: write_lock_push_def get_queue_def)
  have "q_deinit_locked queue m = Some (Done
        \<lparr>queues = (queues m)(queue \<mapsto> Q\<lparr>head := NULL, tail := NULL, destroyed := 1\<rparr>),
         nodes = (\<lambda>a. if a \<in> set as then None else nodes m a),
         tape = tape m\<rparr>)"
    using deinit_loop_dlseg [OF q(2,4)] q(1) assms(4,5)
    by (simp add: q_deinit_locked_def upd_queue_def write_unlock_def)
  with assms(2,3) q(1) wl True show ?thesis by (simp add: q_deinit_def)
qed

text \<open>
  C7.  On a queue that is not destroyed, \<open>q_deinit\<close> waits while there are
  readers; otherwise it returns, and then every node of the list is freed, no other
  block is freed or written (the payloads are addresses that the code only copies:
  it never goes through them), head and tail are null and destroyed is 1.
\<close>

theorem q_deinit_frees_all_nodes:
  assumes "queue_inv queue m as"
    and "queues m0 queue = Some Q0" and "destroyed Q0 = 0"
    and "queues m queue = Some Q" and "destroyed Q = 0"
  shows "q_deinit queue m0 m =
     (if readers Q \<noteq> 0 then Some Blocked
      else Some (Done
        \<lparr>queues = (queues m)(queue \<mapsto> Q\<lparr>head := NULL, tail := NULL, destroyed := 1\<rparr>),
         nodes = (\<lambda>a. if a \<in> set as then None else nodes m a),
         tape = tape m\<rparr>))"
  using assms by (rule q_deinit_run)

text \<open>
  The queue with two elements is torn down; while a traversal holds the read lock
  the call waits.
\<close>

theorem q_deinit_frees_all_nodes_witness:
  "queue_inv 1 two_node_mem [10, 11]
   \<and> queues two_node_mem 1 = Some two_node_queue \<and> destroyed two_node_queue = 0
   \<and> q_deinit 1 two_node_mem two_node_mem = Some (Done torn_down_mem)
   \<and> q_deinit 1 two_node_mem two_node_read_mem = Some Blocked"
proof -
  have h1: "queue_inv 1 two_node_mem [10, 11]"
    by (simp add: queue_inv_def two_node_mem_def two_node_queue_def)
  have h3: "queues two_node_mem 1 = Some two_node_queue" by (simp add: two_node_mem_def)
  have h4: "destroyed two_node_queue = 0" by (simp add: two_node_queue_def)
  have r1: "queue_inv 1 two_node_read_mem [10, 11]"
    by (simp add: queue_inv_def two_node_read_mem_def two_node_mem_def two_node_queue_def)
  have r3: "queues two_node_read_mem 1 = Some (two_node_queue\<lparr>readers := 1\<rparr>)"
    by (simp add: two_node_read_mem_def)
  have r4: "destroyed (two_node_queue\<lparr>readers := 1\<rparr>) = 0" by (simp add: two_node_queue_def)
  have eq: "\<lparr>queues = (queues two_node_mem)(1 \<mapsto> two_node_queue\<lparr>head := NULL, tail := NULL, destroyed := 1\<rparr>),
         nodes = (\<lambda>a. if a \<in> set [10, 11] then None else nodes two_node_mem a),
         tape = tape two_node_mem\<rparr> = torn_down_mem"
    by (simp add: two_node_mem_def two_node_queue_def torn_down_mem_def torn_down_queue_def
        fun_eq_iff)
  from q_deinit_frees_all_nodes [OF h1 h3 h4 h3 h4] q_deinit_frees_all_nodes [OF r1 h3 h4 r3 r4]
    h1 h3 h4 eq
  show ?thesis by (simp add: two_node_queue_def)
qed

section \<open>Allocation failure\<close>

lemma q_push_front_unlocked:
  assumes "queue \<noteq> NULL" "queues m queue = Some Q" "destroyed Q = 0" "readers Q = 0"
    and "obj \<noteq> NULL"
  shows "q_push_front queue obj m m = q_push_front_locked queue obj m"
  using assms by (simp add: q_push_front_def get_queue_def write_lock_push_def)

lemma q_push_back_unlocked:
  assumes "queue \<noteq> NULL" "queues m queue = Some Q" "destroyed Q = 0" "readers Q = 0"
    and "obj \<noteq> NULL"
  shows "q_push_back queue obj m m = q_push_back_locked queue obj m"
  using assms by (simp add: q_push_back_def get_queue_def write_lock_push_def)

text \<open>
  With at least one element in the queue a failed allocation is reported and the
  queue and the nodes are as before.
\<close>

lemma q_push_alloc_failure_nonempty:
  assumes "queue_inv queue m as" "as \<noteq> []"
    and "queues m queue = Some Q" "destroyed Q = 0" "readers Q = 0"
    and "obj \<noteq> NULL" "fst (malloc m) = NULL"
  shows "\<exists>m'. q_push_front queue obj m m = Done (EXIT_FAILURE, m')
            \<and> q_push_back queue obj m m = Done (EXIT_FAILURE, m')
            \<and> queues m' = queues m \<and> nodes m' = nodes m"
proof -
  note q = queue_inv_Q [OF assms(1,3)]
  from queue_inv_head_null [OF assms(1,3)] assms(2) have hd: "head Q \<noteq> NULL" by simp
  from queue_inv_tail_null [OF assms(1,3)] assms(2) have tl: "tail Q \<noteq> NULL" by simp
  from q_push_front_unlocked [OF q(1) assms(3-6)]
    q_push_front_locked_alloc_failure [OF q(1) assms(3,4) hd assms(7)]
    q_push_back_unlocked [OF q(1) assms(3-6)]
    q_push_back_locked_alloc_failure [OF q(1) assms(3,4) tl assms(7)]
    malloc_failure(1,2) [OF assms(7)]
  show ?thesis by simp
qed

text \<open>
  C2 fails on the empty queue.  With no element in the queue (\<open>live_empty_mem\<close>,
  where the allocator has nothing to give), \<open>q_push_front\<close> and \<open>q_push_back\<close>
  call \<open>create_first_node\<close>, which stores through the null pointer returned by
  \<open>malloc\<close>: the call faults instead of returning failure.
\<close>

theorem q_push_first_node_alloc_failure_faults:
  "fst (malloc live_empty_mem) = NULL
   \<and> q_push_front 1 100 live_empty_mem live_empty_mem = Fault
   \<and> q_push_back 1 100 live_empty_mem live_empty_mem = Fault"
  by (simp add: live_empty_mem_def malloc_def q_push_front_def q_push_back_def get_queue_def
      write_lock_push_def q_push_front_locked_def q_push_back_locked_def
      create_first_node_def upd_queue_def upd_node_def)

section \<open>What each operation does to a well-formed queue\<close>

lemma queue_inv_cong:
  "queues m' = queues m \<Longrightarrow> nodes m' = nodes m \<Longrightarrow> queue_inv queue m' as = queue_inv queue m as"
  by (simp add: queue_inv_def split: option.splits)

lemma payloads_cong:
  "nodes m' = nodes m \<Longrightarrow> payloads m' as = payloads m as"
  by (simp add: payloads_def)

lemma same_flags_refl:
  "queues m queue = Some Q \<Longrightarrow> same_flags queue m m"
  by (simp add: same_flags_def)

lemma same_flags_cong:
  "queues m queue = Some Q \<Longrightarrow> queues m' = queues m \<Longrightarrow> same_flags queue m m'"
  by (simp add: same_flags_def)

lemma same_flags_upd:
  "queues m queue = Some Q \<Longrightarrow> queues m' queue = Some (Q\<lparr>head := h, tail := t\<rparr>) \<Longrightarrow>
   same_flags queue m m'"
  by (simp add: same_flags_def)

lemma q_push_front_summary:
  assumes inv: "queue_inv queue m as" and Q: "queues m queue = Some Q"
    and Q0: "queues m0 queue = Some Q0"
    and run: "q_push_front queue obj m0 m = Done (r, m')"
  shows "(r = EXIT_FAILURE \<and> m' = m0 \<and> (obj = NULL \<or> destroyed Q0 \<noteq> 0))
       \<or> (r = EXIT_FAILURE \<and> m' = m \<and> destroyed Q \<noteq> 0)
       \<or> (r = EXIT_FAILURE \<and> destroyed Q = 0 \<and> readers Q = 0 \<and> as \<noteq> [] \<and>
            fst (malloc m) = NULL \<and> queues m' = queues m \<and> nodes m' = nodes m)
       \<or> (r = EXIT_SUCCESS \<and> obj \<noteq> NULL \<and> destroyed Q = 0 \<and> readers Q = 0 \<and>
            fst (malloc m) \<noteq> NULL \<and>
            queue_inv queue m' (fst (malloc m) # as) \<and>
            payloads m' (fst (malloc m) # as) = obj # payloads m as \<and> same_flags queue m m')"
proof -
  note q = queue_inv_Q [OF inv Q]
  show ?thesis
  proof (cases "obj = NULL \<or> destroyed Q0 \<noteq> 0")
    case True
    with q(1) Q0 have "q_push_front queue obj m0 m = Done (EXIT_FAILURE, m0)"
      by (auto simp: q_push_front_def get_queue_def)
    with run have "r = EXIT_FAILURE" "m' = m0" by simp_all
    with True show ?thesis by simp
  next
    case False
    then have obj: "obj \<noteq> NULL" and l0: "destroyed Q0 = 0" by simp_all
    show ?thesis
    proof (cases "destroyed Q = 0")
      case False
      from q_push_front_destroyed [OF q(1) Q0 Q, of obj] False l0 obj run show ?thesis by simp
    next
      case live: True
      show ?thesis
      proof (cases "readers Q = 0")
        case False
        with run q(1) Q Q0 l0 obj live show ?thesis
          by (simp add: q_push_front_def get_queue_def write_lock_push_def)
      next
        case True
        with run q(1) Q Q0 l0 obj live
        have lk: "q_push_front_locked queue obj m = Done (r, m')"
          by (simp add: q_push_front_def get_queue_def write_lock_push_def)
        show ?thesis
        proof (cases "fst (malloc m) = NULL")
          case fail: True
          show ?thesis
          proof (cases "as = []")
            case True
            with q have "head Q = NULL" "tail Q = NULL" by simp_all
            from q_push_front_locked_first_alloc_failure [OF q(1) Q live obj this fail] lk
            show ?thesis by simp
          next
            case False
            with queue_inv_head_null [OF inv Q] have "head Q \<noteq> NULL" by simp
            from q_push_front_locked_alloc_failure [OF q(1) Q live this fail] lk
            have "r = EXIT_FAILURE" "m' = snd (malloc m)" by simp_all
            with malloc_failure(1,2) [OF fail] False live True fail
            show ?thesis by simp
          qed
        next
          case ok: False
          from q_push_front_locked_ok [OF inv Q live obj refl ok] lk
          obtain "r = EXIT_SUCCESS" "queue_inv queue m' (fst (malloc m) # as)"
            "payloads m' (fst (malloc m) # as) = obj # payloads m as"
            "queues m' queue =
               Some (Q\<lparr>head := fst (malloc m), tail := (if as = [] then fst (malloc m) else tail Q)\<rparr>)"
            by auto
          with same_flags_upd [OF Q this(4)] obj live True ok show ?thesis by simp
        qed
      qed
    qed
  qed
qed
lemma q_push_back_summary:
  assumes inv: "queue_inv queue m as" and Q: "queues m queue = Some Q"
    and Q0: "queues m0 queue = Some Q0"
    and run: "q_push_back queue obj m0 m = Done (r, m')"
  shows "(r = EXIT_FAILURE \<and> m' = m0 \<and> (obj = NULL \<or> destroyed Q0 \<noteq> 0))
       \<or> (r = EXIT_FAILURE \<and> m' = m \<and> destroyed Q \<noteq> 0)
       \<or> (r = EXIT_FAILURE \<and> destroyed Q = 0 \<and> readers Q = 0 \<and> as \<noteq> [] \<and>
            fst (malloc m) = NULL \<and> queues m' = queues m \<and> nodes m' = nodes m)
       \<or> (r = EXIT_SUCCESS \<and> obj \<noteq> NULL \<and> destroyed Q = 0 \<and> readers Q = 0 \<and>
            fst (malloc m) \<noteq> NULL \<and>
            queue_inv queue m' (as @ [fst (malloc m)]) \<and>
            payloads m' (as @ [fst (malloc m)]) = payloads m as @ [obj] \<and>
            same_flags queue m m')"
proof -
  note q = queue_inv_Q [OF inv Q]
  show ?thesis
  proof (cases "obj = NULL \<or> destroyed Q0 \<noteq> 0")
    case True
    with q(1) Q0 have "q_push_back queue obj m0 m = Done (EXIT_FAILURE, m0)"
      by (auto simp: q_push_back_def get_queue_def)
    with run have "r = EXIT_FAILURE" "m' = m0" by simp_all
    with True show ?thesis by simp
  next
    case False
    then have obj: "obj \<noteq> NULL" and l0: "destroyed Q0 = 0" by simp_all
    show ?thesis
    proof (cases "destroyed Q = 0")
      case False
      from q_push_back_destroyed [OF q(1) Q0 Q, of obj] False l0 obj run show ?thesis by simp
    next
      case live: True
      show ?thesis
      proof (cases "readers Q = 0")
        case False
        with run q(1) Q Q0 l0 obj live show ?thesis
          by (simp add: q_push_back_def get_queue_def write_lock_push_def)
      next
        case True
        with run q(1) Q Q0 l0 obj live
        have lk: "q_push_back_locked queue obj m = Done (r, m')"
          by (simp add: q_push_back_def get_queue_def write_lock_push_def)
        show ?thesis
        proof (cases "fst (malloc m) = NULL")
          case fail: True
          show ?thesis
          proof (cases "as = []")
            case True
            with q have "head Q = NULL" "tail Q = NULL" by simp_all
            from q_push_back_locked_first_alloc_failure [OF q(1) Q live obj this fail] lk
            show ?thesis by simp
          next
            case False
            with queue_inv_tail_null [OF inv Q] have "tail Q \<noteq> NULL" by simp
            from q_push_back_locked_alloc_failure [OF q(1) Q live this fail] lk
            have "r = EXIT_FAILURE" "m' = snd (malloc m)" by simp_all
            with malloc_failure(1,2) [OF fail] False live True fail
            show ?thesis by simp
          qed
        next
          case ok: False
          from q_push_back_locked_ok [OF inv Q live obj refl ok] lk
          obtain "r = EXIT_SUCCESS" "queue_inv queue m' (as @ [fst (malloc m)])"
            "payloads m' (as @ [fst (malloc m)]) = payloads m as @ [obj]"
            "queues m' queue =
               Some (Q\<lparr>head := (if as = [] then fst (malloc m) else head Q), tail := fst (malloc m)\<rparr>)"
            by auto
          with same_flags_upd [OF Q this(4)] obj live True ok show ?thesis by simp
        qed
      qed
    qed
  qed
qed

lemma q_pop_front_summary:
  assumes inv: "queue_inv queue m as" and Q: "queues m queue = Some Q"
    and Q0: "queues m0 queue = Some Q0"
    and run: "q_pop_front queue m0 m = Done (r, m')"
  shows "(r = NULL \<and> m' = m0 \<and> destroyed Q0 \<noteq> 0)
       \<or> (r = NULL \<and> m' = m \<and> destroyed Q0 = 0 \<and> destroyed Q \<noteq> 0)
       \<or> (destroyed Q0 = 0 \<and> destroyed Q = 0 \<and> readers Q = 0 \<and> as \<noteq> [] \<and>
            r = hd (payloads m as) \<and> queue_inv queue m' (tl as) \<and>
            payloads m' (tl as) = tl (payloads m as) \<and> same_flags queue m m' \<and>
            nodes m' (hd as) = None)"
proof -
  note q = queue_inv_Q [OF inv Q]
  show ?thesis
  proof (cases "destroyed Q0 \<noteq> 0 \<or> destroyed Q \<noteq> 0")
    case True
    from q_pop_front_destroyed [OF q(1) Q0 Q True] run True show ?thesis by auto
  next
    case False
    then have l0: "destroyed Q0 = 0" and live: "destroyed Q = 0" by simp_all
    show ?thesis
    proof (cases "head Q = NULL \<or> readers Q \<noteq> 0")
      case True
      with run q(1) Q Q0 l0 live show ?thesis
        by (simp add: q_pop_front_def get_queue_def write_lock_pop_def)
    next
      case False
      with run q(1) Q Q0 l0 live
      have lk: "q_pop_front_locked queue m = Done (r, m')"
        by (simp add: q_pop_front_def get_queue_def write_lock_pop_def)
      from False queue_inv_head_null [OF inv Q] obtain a as' where as: "as = a # as'"
        by (cases as) auto
      from q_pop_front_locked_ok [OF inv [unfolded as] Q live] lk
      obtain "r = hd (payloads m (a # as'))" "queue_inv queue m' as'"
        "payloads m' as' = tl (payloads m (a # as'))" "nodes m' a = None"
        "queues m' queue =
          Some (Q\<lparr>head := (if as' = [] then NULL else hd as'),
                  tail := (if as' = [] then NULL else tail Q)\<rparr>)"
        by auto
      with same_flags_upd [OF Q this(5)] as l0 live False show ?thesis by simp
    qed
  qed
qed

lemma q_pop_back_summary:
  assumes inv: "queue_inv queue m as" and Q: "queues m queue = Some Q"
    and Q0: "queues m0 queue = Some Q0"
    and run: "q_pop_back queue m0 m = Done (r, m')"
  shows "(r = NULL \<and> m' = m0 \<and> destroyed Q0 \<noteq> 0)
       \<or> (r = NULL \<and> m' = m \<and> destroyed Q0 = 0 \<and> destroyed Q \<noteq> 0)
       \<or> (destroyed Q0 = 0 \<and> destroyed Q = 0 \<and> readers Q = 0 \<and> as \<noteq> [] \<and>
            r = last (payloads m as) \<and> queue_inv queue m' (butlast as) \<and>
            payloads m' (butlast as) = butlast (payloads m as) \<and> same_flags queue m m' \<and>
            nodes m' (last as) = None)"
proof -
  note q = queue_inv_Q [OF inv Q]
  show ?thesis
  proof (cases "destroyed Q0 \<noteq> 0 \<or> destroyed Q \<noteq> 0")
    case True
    from q_pop_back_destroyed [OF q(1) Q0 Q True] run True show ?thesis by auto
  next
    case False
    then have l0: "destroyed Q0 = 0" and live: "destroyed Q = 0" by simp_all
    show ?thesis
    proof (cases "head Q = NULL \<or> readers Q \<noteq> 0")
      case True
      with run q(1) Q Q0 l0 live show ?thesis
        by (simp add: q_pop_back_def get_queue_def write_lock_pop_def)
    next
      case False
      with run q(1) Q Q0 l0 live
      have lk: "q_pop_back_locked queue m = Done (r, m')"
        by (simp add: q_pop_back_def get_queue_def write_lock_pop_def)
      from False queue_inv_head_null [OF inv Q] obtain as' a where as: "as = as' @ [a]"
        by (cases as rule: rev_cases) auto
      from q_pop_back_locked_ok [OF inv [unfolded as] Q live] lk
      obtain "r = last (payloads m (as' @ [a]))" "queue_inv queue m' as'"
        "payloads m' as' = butlast (payloads m (as' @ [a]))" "nodes m' a = None"
        "queues m' queue =
          Some (Q\<lparr>head := (if as' = [] then NULL else head Q),
                  tail := (if as' = [] then NULL else last as')\<rparr>)"
        by auto
      with same_flags_upd [OF Q this(5)] as l0 live False show ?thesis by simp
    qed
  qed
qed

lemma q_init_run:
  assumes "queue \<noteq> NULL" "queues m queue = Some Q"
  shows "q_init queue m =
     Done (EXIT_SUCCESS,
       m\<lparr>queues := (queues m)(queue \<mapsto>
           Q\<lparr>head := NULL, tail := NULL, readers := 0, destroyed := 0\<rparr>)\<rparr>)"
  using assms by (simp add: q_init_def upd_queue_def)

lemma q_traverse_summary:
  assumes inv: "queue_inv queue m as" and Q: "queues m queue = Some Q"
    and Q0: "queues m0 queue = Some Q0"
    and run: "q_traverse queue f m0 m u = Some (Done (r, m', u'))"
  shows "m' = m0 \<or> m' = m"
proof (cases f)
  case None
  with run show ?thesis by (simp add: q_traverse_def)
next
  case (Some g)
  note q = queue_inv_Q [OF inv Q]
  show ?thesis
  proof (cases "destroyed Q0 \<noteq> 0 \<or> destroyed Q \<noteq> 0")
    case True
    from q_traverse_destroyed [OF q(1) Q0 Q True, of g u] run Some show ?thesis by auto
  next
    case False
    then have l0: "destroyed Q0 = 0" and live: "destroyed Q = 0" by simp_all
    show ?thesis
    proof (cases "as = []")
      case True
      with queue_inv_head_null [OF inv Q] have "head Q = NULL" by simp
      with read_lock_blocked [OF q(1) Q] live have "read_lock queue m = Blocked" by simp
      with run Some q(1) Q0 l0 show ?thesis by (simp add: q_traverse_def)
    next
      case False
      from q_traverse_run [OF inv False Q0 l0 Q live, of g u] run Some show ?thesis by simp
    qed
  qed
qed

lemma q_deinit_summary:
  assumes inv: "queue_inv queue m as" and Q: "queues m queue = Some Q"
    and Q0: "queues m0 queue = Some Q0"
    and run: "q_deinit queue m0 m = Some (Done m')"
  shows "(m' = m0 \<and> destroyed Q0 \<noteq> 0)
       \<or> (m' = m \<and> destroyed Q0 = 0 \<and> destroyed Q \<noteq> 0)
       \<or> (destroyed Q0 = 0 \<and> destroyed Q = 0 \<and> readers Q = 0 \<and>
            m' = \<lparr>queues = (queues m)(queue \<mapsto> Q\<lparr>head := NULL, tail := NULL, destroyed := 1\<rparr>),
                  nodes = (\<lambda>a. if a \<in> set as then None else nodes m a),
                  tape = tape m\<rparr>)"
proof -
  note q = queue_inv_Q [OF inv Q]
  show ?thesis
  proof (cases "destroyed Q0 = 0")
    case False
    from q_deinit_destroyed_before [OF q(1) Q0 False, of m] run False show ?thesis by simp
  next
    case l0: True
    show ?thesis
    proof (cases "destroyed Q = 0")
      case False
      with q(1) Q have "write_lock_push queue m = Done m"
        by (simp add: write_lock_push_destroyed)
      moreover from False Q have "q_deinit_locked queue m = Some (Done m)"
        by (simp add: q_deinit_locked_def write_unlock_def)
      ultimately have "q_deinit queue m0 m = Some (Done m)"
        using q_deinit_live_before [OF q(1) Q0 l0, of m] by simp
      with run False l0 show ?thesis by simp
    next
      case True
      from q_deinit_run [OF inv Q0 l0 Q True] run True l0 show ?thesis
        by (cases "readers Q = 0") simp_all
    qed
  qed
qed

lemma queue_inv_torn_down:
  assumes "queue \<noteq> NULL"
  shows "queue_inv queue \<lparr>queues = qs(queue \<mapsto> Q\<lparr>head := NULL, tail := NULL, destroyed := d\<rparr>),
                           nodes = h, tape = t\<rparr> []"
  using assms by (simp add: queue_inv_def)

section \<open>The structural invariant\<close>

lemma dlseg_nth:
  "dlseg h pv p as e \<Longrightarrow> i < length as \<Longrightarrow>
     (case h (as ! i) of
        None \<Rightarrow> False
      | Some n \<Rightarrow>
          as ! i \<noteq> NULL \<and>
          prev n = (if i = 0 then pv else as ! (i - 1)) \<and>
          next n = (if Suc i = length as then e else as ! Suc i))"
proof (induction as arbitrary: pv p i)
  case Nil
  then show ?case by simp
next
  case (Cons a as)
  from Cons.prems(1) obtain n where n: "h a = Some n" "a \<noteq> NULL" "prev n = pv"
    and seg: "dlseg h a (next n) as e"
    by (auto split: option.splits)
  show ?case
  proof (cases i)
    case 0
    from seg have "next n = (if as = [] then e else as ! 0)"
      by (cases as) auto
    with 0 n show ?thesis by simp
  next
    case (Suc j)
    with Cons.prems(2) have j: "j < length as" by simp
    from Cons.IH [OF seg j] obtain n' where "h (as ! j) = Some n'" "as ! j \<noteq> NULL"
      "prev n' = (if j = 0 then a else as ! (j - 1))"
      "next n' = (if Suc j = length as then e else as ! Suc j)"
      by (auto split: option.splits)
    with Suc show ?thesis by (simp add: nth_Cons')
  qed
qed

lemma queue_inv_well_linked:
  assumes "queue_inv queue m as" "queues m queue = Some Q"
  shows "well_linked Q (nodes m) as"
proof -
  note q = queue_inv_Q [OF assms]
  have hn: "head Q = NULL \<longleftrightarrow> as = []" by (rule queue_inv_head_null [OF assms])
  have tn: "tail Q = NULL \<longleftrightarrow> as = []" by (rule queue_inv_tail_null [OF assms])
  have hd: "as \<noteq> [] \<longrightarrow> head Q = hd as \<and> tail Q = last as"
    using q(2,3) by (cases as) auto
  have "\<forall>i < length as.
         case nodes m (as ! i) of
           None \<Rightarrow> False
         | Some n \<Rightarrow>
             as ! i \<noteq> NULL \<and>
             prev n = (if i = 0 then NULL else as ! (i - 1)) \<and>
             next n = (if Suc i = length as then NULL else as ! Suc i)"
    using dlseg_nth [OF q(2)] by blast
  with hn tn hd show ?thesis unfolding well_linked_def by blast
qed

lemma then_do_pair_Done:
  "then_do x (\<lambda>(r, m). Done (g r, m, u)) = Done (r', m', u') \<longleftrightarrow>
     (\<exists>r0. x = Done (r0, m') \<and> r' = g r0 \<and> u' = u)"
  by (cases x) auto

lemma then_do_triple_Done:
  "then_do x (\<lambda>(r, m, u). Done (g r, m, u)) = Done (r', m', u') \<longleftrightarrow>
     (\<exists>r0. x = Done (r0, m', u') \<and> r' = g r0)"
  by (cases x) auto

lemma then_do_mem_Done:
  "then_do x (\<lambda>m. Done (c, m, u)) = Done (r', m', u') \<longleftrightarrow>
     (x = Done m' \<and> r' = c \<and> u' = u)"
  by (cases x) auto

lemma not_in_tl: "x \<notin> set xs \<Longrightarrow> x \<notin> set (tl xs)"
  by (cases xs) auto

lemma not_in_butlast: "x \<notin> set xs \<Longrightarrow> x \<notin> set (butlast xs)"
  by (auto dest: in_set_butlastD)

lemma exec_summary:
  assumes inv: "queue_inv queue m as" and Q: "queues m queue = Some Q"
    and run: "exec queue c (m, u) = Some (Done (r, m', u'))"
  shows "\<exists>as'. queue_inv queue m' as'
      \<and> (NULL \<notin> set (payloads m as) \<longrightarrow> NULL \<notin> set (payloads m' as'))
      \<and> (same_flags queue m m'
           \<or> (c = Init \<and> (\<exists>Q'. queues m' queue = Some Q' \<and> destroyed Q' = 0))
           \<or> (c = Deinit \<and> destroyed Q = 0 \<and> (\<forall>a\<in>set as. nodes m' a = None) \<and>
               (\<exists>Q'. queues m' queue = Some Q' \<and> head Q' = NULL \<and> tail Q' = NULL)))"
proof -
  note q = queue_inv_Q [OF inv Q]
  have same: "same_flags queue m m" by (rule same_flags_refl [OF Q])
  have keep: ?thesis if "m' = m"
    using that inv same by (intro exI [of _ as]) simp
  have fail: ?thesis if eq: "queues m' = queues m" "nodes m' = nodes m"
  proof -
    from inv have "queue_inv queue m' as" by (simp add: queue_inv_cong [OF eq])
    with same_flags_cong [OF Q eq(1)] payloads_cong [OF eq(2), of as] show ?thesis
      by (intro exI [of _ as]) simp
  qed
  show ?thesis
  proof (cases c)
    case Init
    with run q_init_run [OF q(1) Q]
    have m': "m' = m\<lparr>queues := (queues m)(queue \<mapsto>
           Q\<lparr>head := NULL, tail := NULL, readers := 0, destroyed := 0\<rparr>)\<rparr>"
      by simp
    then have "queue_inv queue m' []" using q(1) by (simp add: queue_inv_def)
    with m' Init show ?thesis by (intro exI [of _ "[]"]) (simp add: payloads_def)
  next
    case (Push_front obj)
    with run obtain r0 where "q_push_front queue obj m m = Done (r0, m')"
      by (auto simp: then_do_pair_Done)
    from q_push_front_summary [OF inv Q Q this]
    consider "m' = m" | "queues m' = queues m" "nodes m' = nodes m"
      | "queue_inv queue m' (fst (malloc m) # as)"
        "payloads m' (fst (malloc m) # as) = obj # payloads m as"
        "same_flags queue m m'" "obj \<noteq> NULL"
      by blast
    then show ?thesis
    proof cases
      case 1
      then show ?thesis by (rule keep)
    next
      case 2
      then show ?thesis by (rule fail)
    next
      case 3
      then show ?thesis by (intro exI [of _ "fst (malloc m) # as"]) simp
    qed
  next
    case (Push_back obj)
    with run obtain r0 where "q_push_back queue obj m m = Done (r0, m')"
      by (auto simp: then_do_pair_Done)
    from q_push_back_summary [OF inv Q Q this]
    consider "m' = m" | "queues m' = queues m" "nodes m' = nodes m"
      | "queue_inv queue m' (as @ [fst (malloc m)])"
        "payloads m' (as @ [fst (malloc m)]) = payloads m as @ [obj]"
        "same_flags queue m m'" "obj \<noteq> NULL"
      by blast
    then show ?thesis
    proof cases
      case 1
      then show ?thesis by (rule keep)
    next
      case 2
      then show ?thesis by (rule fail)
    next
      case 3
      then show ?thesis by (intro exI [of _ "as @ [fst (malloc m)]"]) simp
    qed
  next
    case Pop_front
    with run obtain r0 where "q_pop_front queue m m = Done (r0, m')"
      by (auto simp: then_do_pair_Done)
    from q_pop_front_summary [OF inv Q Q this]
    consider "m' = m"
      | "queue_inv queue m' (tl as)" "payloads m' (tl as) = tl (payloads m as)"
        "same_flags queue m m'"
      by blast
    then show ?thesis
    proof cases
      case 1
      then show ?thesis by (rule keep)
    next
      case 2
      then show ?thesis by (intro exI [of _ "tl as"]) (simp add: not_in_tl)
    qed
  next
    case Pop_back
    with run obtain r0 where "q_pop_back queue m m = Done (r0, m')"
      by (auto simp: then_do_pair_Done)
    from q_pop_back_summary [OF inv Q Q this]
    consider "m' = m"
      | "queue_inv queue m' (butlast as)"
        "payloads m' (butlast as) = butlast (payloads m as)" "same_flags queue m m'"
      by blast
    then show ?thesis
    proof cases
      case 1
      then show ?thesis by (rule keep)
    next
      case 2
      then show ?thesis by (intro exI [of _ "butlast as"]) (simp add: not_in_butlast)
    qed
  next
    case (Traverse f)
    with run obtain r0 where "q_traverse queue f m m u = Some (Done (r0, m', u'))"
      by (auto simp: then_do_triple_Done)
    from q_traverse_summary [OF inv Q Q this] have "m' = m" by simp
    then show ?thesis by (rule keep)
  next
    case Deinit
    with run have "q_deinit queue m m = Some (Done m')"
      by (auto simp: then_do_mem_Done)
    from q_deinit_summary [OF inv Q Q this]
    consider "m' = m"
      | "destroyed Q = 0"
        "m' = \<lparr>queues = (queues m)(queue \<mapsto> Q\<lparr>head := NULL, tail := NULL, destroyed := 1\<rparr>),
                  nodes = (\<lambda>a. if a \<in> set as then None else nodes m a),
                  tape = tape m\<rparr>"
      by blast
    then show ?thesis
    proof cases
      case 1
      then show ?thesis by (rule keep)
    next
      case 2
      have "queue_inv queue m' []" unfolding 2(2) by (rule queue_inv_torn_down [OF q(1)])
      with 2 Deinit show ?thesis
        by (intro exI [of _ "[]"]) (simp add: payloads_def)
    qed
  qed
qed

text \<open>
  The invariant in the words of the specification implies the one the proofs use: a
  chain of \<open>next\<close> that ends in null cannot visit a node twice.  With
  \<open>queue_inv_well_linked\<close> the two say the same of a queue.
\<close>

lemma dlseg_unique:
  "dlseg h pv p as NULL \<Longrightarrow> dlseg h pv' p bs NULL \<Longrightarrow> as = bs"
proof (induction as arbitrary: pv pv' p bs)
  case Nil
  then show ?case by (cases bs) auto
next
  case (Cons a as)
  from Cons.prems(1) obtain n where n: "p = a" "a \<noteq> NULL" "h a = Some n"
    "dlseg h a (next n) as NULL"
    by (auto split: option.splits)
  with Cons.prems(2) obtain bs' where bs: "bs = a # bs'" "dlseg h a (next n) bs' NULL"
    by (cases bs) (auto split: option.splits)
  from Cons.IH [OF n(4) bs(2)] bs(1) show ?case by simp
qed

lemma dlseg_suffix:
  "dlseg h pv p (as @ b # bs) e \<Longrightarrow> dlseg h (last (pv # as)) b (b # bs) e"
proof (induction as arbitrary: pv p)
  case Nil
  then show ?case by simp
next
  case (Cons a as)
  from Cons.prems obtain n where "h a = Some n" "dlseg h a (next n) (as @ b # bs) e"
    by (auto split: option.splits)
  from Cons.IH [OF this(2)] show ?case by simp
qed

lemma dlseg_distinct:
  "dlseg h pv p as NULL \<Longrightarrow> distinct as"
proof (induction as arbitrary: pv p)
  case Nil
  then show ?case by simp
next
  case (Cons a as)
  from Cons.prems obtain n where p: "p = a" and n: "h a = Some n" "dlseg h a (next n) as NULL"
    by (auto split: option.splits)
  have "a \<notin> set as"
  proof
    assume "a \<in> set as"
    then obtain xs ys where split: "as = xs @ a # ys" by (auto simp: in_set_conv_decomp)
    from dlseg_suffix [OF n(2) [unfolded split]]
    have "dlseg h (last (a # xs)) a (a # ys) NULL" .
    from dlseg_unique [OF Cons.prems [unfolded p] this] split show False by simp
  qed
  with Cons.IH [OF n(2)] show ?case by simp
qed

lemma dlseg_of_nth:
  "(\<forall>i < length as.
      case h (as ! i) of
        None \<Rightarrow> False
      | Some n \<Rightarrow>
          as ! i \<noteq> NULL \<and>
          prev n = (if i = 0 then pv else as ! (i - 1)) \<and>
          next n = (if Suc i = length as then e else as ! Suc i)) \<Longrightarrow>
   dlseg h pv (if as = [] then e else hd as) as e"
proof (induction as arbitrary: pv)
  case Nil
  then show ?case by simp
next
  case (Cons a as)
  from Cons.prems [rule_format, of 0] obtain n where n: "h a = Some n" "a \<noteq> NULL"
    "prev n = pv" "next n = (if as = [] then e else as ! 0)"
    by (auto split: option.splits)
  have "\<forall>i < length as.
      case h (as ! i) of
        None \<Rightarrow> False
      | Some n \<Rightarrow>
          as ! i \<noteq> NULL \<and>
          prev n = (if i = 0 then a else as ! (i - 1)) \<and>
          next n = (if Suc i = length as then e else as ! Suc i)"
  proof (intro allI impI)
    fix i assume i: "i < length as"
    with Cons.prems [rule_format, of "Suc i"] obtain n'
      where "h (as ! i) = Some n'" "as ! i \<noteq> NULL" "prev n' = (a # as) ! i"
        "next n' = (if Suc i = length as then e else as ! Suc i)"
      by (auto split: option.splits)
    then show "case h (as ! i) of
        None \<Rightarrow> False
      | Some n \<Rightarrow>
          as ! i \<noteq> NULL \<and>
          prev n = (if i = 0 then a else as ! (i - 1)) \<and>
          next n = (if Suc i = length as then e else as ! Suc i)"
      by (simp add: nth_Cons')
  qed
  from Cons.IH [OF this] have "dlseg h a (if as = [] then e else hd as) as e" .
  moreover have "(if as = [] then e else as ! 0) = (if as = [] then e else hd as)"
    by (cases as) simp_all
  ultimately show ?case using n by simp
qed

lemma well_linked_queue_inv:
  assumes "queue \<noteq> NULL" "queues m queue = Some Q" "well_linked Q (nodes m) as"
  shows "queue_inv queue m as"
proof -
  from assms(3) have idx: "\<forall>i < length as.
      case nodes m (as ! i) of
        None \<Rightarrow> False
      | Some n \<Rightarrow>
          as ! i \<noteq> NULL \<and>
          prev n = (if i = 0 then NULL else as ! (i - 1)) \<and>
          next n = (if Suc i = length as then NULL else as ! Suc i)"
    and hd: "head Q = NULL \<longleftrightarrow> as = []" "as \<noteq> [] \<longrightarrow> head Q = hd as \<and> tail Q = last as"
      "head Q = NULL \<longleftrightarrow> tail Q = NULL"
    unfolding well_linked_def by blast+
  from hd have h: "head Q = (if as = [] then NULL else hd as)" by auto
  from hd have t: "tail Q = last (NULL # as)" by auto
  from dlseg_of_nth [OF idx] h have seg: "dlseg (nodes m) NULL (head Q) as NULL" by simp
  from seg t dlseg_distinct [OF seg] assms(1,2) show ?thesis by (simp add: queue_inv_def)
qed

lemma queue_inv_obtain:
  assumes "queue_inv queue m as"
  obtains Q where "queues m queue = Some Q"
  using assms by (cases "queues m queue") (simp_all add: queue_inv_def)

text \<open>
  C6.  Every public operation preserves the structural invariant (\<open>well_linked\<close>):
  head is null iff tail is null iff the list is empty, the \<open>prev\<close> of the head
  and the \<open>next\<close> of the tail are null, the chain of \<open>next\<close> from head visits
  the nodes of the list and arrives at tail, and \<open>prev\<close> leads back along the same
  chain.  When the queue at \<open>queue\<close> satisfies it, with the nodes \<open>as\<close>, and a
  call of \<open>q_init\<close>, \<open>q_push_front\<close>, \<open>q_push_back\<close>, \<open>q_pop_front\<close>,
  \<open>q_pop_back\<close>, \<open>q_traverse\<close> or \<open>q_deinit\<close> returns, the queue satisfies it
  again, with some list of nodes \<open>as'\<close>.  (A call that does not return waits on a
  condition variable, or is the push on an empty queue whose allocation fails.)
\<close>

theorem structural_invariant_preserved:
  assumes "queue \<noteq> NULL" and "queues m queue = Some Q"
    and "well_linked Q (nodes m) as"
    and "exec queue c (m, u) = Some (Done (r, m', u'))"
  shows "\<exists>as' Q'. queues m' queue = Some Q' \<and> well_linked Q' (nodes m') as'"
proof -
  from assms(1-3) have inv: "queue_inv queue m as" by (rule well_linked_queue_inv)
  from exec_summary [OF inv assms(2,4)] obtain as' where inv': "queue_inv queue m' as'"
    by blast
  then obtain Q' where Q': "queues m' queue = Some Q'" by (rule queue_inv_obtain)
  from Q' queue_inv_well_linked [OF inv' Q'] show ?thesis by blast
qed

text \<open>A push at the front of the queue with two elements.\<close>

theorem structural_invariant_preserved_witness:
  "queues two_node_mem 1 = Some two_node_queue
   \<and> well_linked two_node_queue (nodes two_node_mem) [10, 11]
   \<and> exec 1 (Push_front 102) (two_node_mem, ()) =
       Some (Done (Status EXIT_SUCCESS, three_node_mem, ()))
   \<and> (\<exists>as' Q'. queues three_node_mem 1 = Some Q'
           \<and> well_linked Q' (nodes three_node_mem) as')"
proof -
  have h0: "(1::addr) \<noteq> NULL" by simp
  have h1: "queues two_node_mem 1 = Some two_node_queue"
    by (simp add: two_node_mem_def)
  have h2: "well_linked two_node_queue (nodes two_node_mem) [10, 11]"
    by (simp add: well_linked_def two_node_mem_def two_node_queue_def less_Suc_eq)
  have h3: "exec 1 (Push_front 102) (two_node_mem, ()) =
       Some (Done (Status EXIT_SUCCESS, three_node_mem, ()))"
    by (simp add: two_node_mem_def two_node_queue_def three_node_mem_def
        q_push_front_def get_queue_def write_lock_push_def q_push_front_locked_def
        malloc_def upd_node_def upd_queue_def write_unlock_def fun_eq_iff)
  from structural_invariant_preserved [OF h0 h1 h2 h3] h1 h2 h3 show ?thesis by simp
qed

section \<open>Payloads are never null\<close>

lemma q_pop_front_null_iff:
  assumes inv: "queue_inv queue m as" and nn: "NULL \<notin> set (payloads m as)"
    and Q0: "queues m0 queue = Some Q0" and Q: "queues m queue = Some Q"
    and run: "q_pop_front queue m0 m = Done (x, m1)"
  shows "x = NULL \<longleftrightarrow> destroyed Q0 \<noteq> 0 \<or> destroyed Q \<noteq> 0"
proof -
  from q_pop_front_summary [OF inv Q Q0 run]
  consider "x = NULL" "destroyed Q0 \<noteq> 0 \<or> destroyed Q \<noteq> 0"
    | "destroyed Q0 = 0" "destroyed Q = 0" "as \<noteq> []" "x = hd (payloads m as)"
    by blast
  then show ?thesis
  proof cases
    case 1
    then show ?thesis by simp
  next
    case 2
    then have "payloads m as \<noteq> []" by (simp add: payloads_def)
    then have "hd (payloads m as) \<in> set (payloads m as)" by simp
    with nn have "hd (payloads m as) \<noteq> NULL"
      by (cases "hd (payloads m as) = NULL") simp_all
    with 2 show ?thesis by simp
  qed
qed

lemma q_pop_back_null_iff:
  assumes inv: "queue_inv queue m as" and nn: "NULL \<notin> set (payloads m as)"
    and Q0: "queues m0 queue = Some Q0" and Q: "queues m queue = Some Q"
    and run: "q_pop_back queue m0 m = Done (x, m1)"
  shows "x = NULL \<longleftrightarrow> destroyed Q0 \<noteq> 0 \<or> destroyed Q \<noteq> 0"
proof -
  from q_pop_back_summary [OF inv Q Q0 run]
  consider "x = NULL" "destroyed Q0 \<noteq> 0 \<or> destroyed Q \<noteq> 0"
    | "destroyed Q0 = 0" "destroyed Q = 0" "as \<noteq> []" "x = last (payloads m as)"
    by blast
  then show ?thesis
  proof cases
    case 1
    then show ?thesis by simp
  next
    case 2
    then have "payloads m as \<noteq> []" by (simp add: payloads_def)
    then have "last (payloads m as) \<in> set (payloads m as)" by simp
    with nn have "last (payloads m as) \<noteq> NULL"
      by (cases "last (payloads m as) = NULL") simp_all
    with 2 show ?thesis by simp
  qed
qed

lemma run_Cons_Done:
  assumes "run queue (c # cs) s = Some (Done (rs, s2))"
  obtains r s1 rs' where "exec queue c s = Some (Done (r, s1))"
    and "run queue cs s1 = Some (Done (rs', s2))" and "rs = r # rs'"
proof (cases "exec queue c s")
  case None
  with assms show ?thesis by simp
next
  case (Some e)
  show ?thesis
  proof (cases e)
    case Fault
    with assms Some show ?thesis by simp
  next
    case Blocked
    with assms Some show ?thesis by simp
  next
    case (Done p)
    obtain r s1 where p: "p = (r, s1)" by (cases p)
    show ?thesis
    proof (cases "run queue cs s1")
      case None
      with assms Some Done p show ?thesis by simp
    next
      case inner: (Some e')
      with assms Some Done p obtain rs' where "e' = Done (rs', s2)" "rs = r # rs'"
        by (cases e') auto
      with that [of r s1 rs'] Some Done p inner show ?thesis by simp
    qed
  qed
qed

lemma run_payloads_nonnull:
  assumes "queue_inv queue m as" and "NULL \<notin> set (payloads m as)"
    and "run queue cs (m, u) = Some (Done (rs, m', u'))"
  shows "\<exists>as'. queue_inv queue m' as' \<and> NULL \<notin> set (payloads m' as')"
  using assms
proof (induction cs arbitrary: m as u rs)
  case Nil
  then show ?case by auto
next
  case (Cons c cs)
  from Cons.prems(3) obtain r s1 rs' where ex: "exec queue c (m, u) = Some (Done (r, s1))"
    and rest: "run queue cs s1 = Some (Done (rs', m', u'))"
    by (rule run_Cons_Done)
  obtain m1 u1 where s1: "s1 = (m1, u1)" by (cases s1)
  from Cons.prems(1) obtain Q where Q: "queues m queue = Some Q" by (rule queue_inv_obtain)
  from exec_summary [OF Cons.prems(1) Q ex [unfolded s1]] Cons.prems(2)
  obtain as1 where "queue_inv queue m1 as1" "NULL \<notin> set (payloads m1 as1)" by blast
  from Cons.IH [OF this rest [unfolded s1]] show ?case .
qed

text \<open>
  C10.  A null payload is rejected by \<open>q_push_front\<close> and \<open>q_push_back\<close> on entry,
  before the lock (the memory returned is \<open>m0\<close>).  So on a queue whose payloads are
  all non-null (the empty queue left by \<open>q_init\<close> is one), every sequence of
  operations that returns leaves a queue whose payloads are all non-null.  On such a queue \<open>q_pop_front\<close> and \<open>q_pop_back\<close> return null exactly
  when the call failed: the queue was destroyed on entry (\<open>Q0\<close>) or when the thread
  had the mutex after waiting (\<open>Q\<close>); with a null queue they return null too.
\<close>

theorem payloads_never_null:
  assumes "queue_inv queue m as" and "NULL \<notin> set (payloads m as)"
    and "queues m0 queue = Some Q0" and "queues m queue = Some Q"
  shows "q_push_front queue NULL m0 m = Done (EXIT_FAILURE, m0)
       \<and> q_push_back queue NULL m0 m = Done (EXIT_FAILURE, m0)
       \<and> (run queue cs (m, u) = Some (Done (rs, m', u')) \<longrightarrow>
            (\<exists>as'. queue_inv queue m' as' \<and> NULL \<notin> set (payloads m' as')))
       \<and> (q_pop_front queue m0 m = Done (x, m1) \<longrightarrow>
            (x = NULL \<longleftrightarrow> destroyed Q0 \<noteq> 0 \<or> destroyed Q \<noteq> 0))
       \<and> (q_pop_back queue m0 m = Done (y, m2) \<longrightarrow>
            (y = NULL \<longleftrightarrow> destroyed Q0 \<noteq> 0 \<or> destroyed Q \<noteq> 0))
       \<and> q_pop_front NULL m0 m = Done (NULL, m0)
       \<and> q_pop_back NULL m0 m = Done (NULL, m0)"
proof -
  have a: "q_push_front queue NULL m0 m = Done (EXIT_FAILURE, m0)"
    by (simp add: q_push_front_def)
  have b: "q_push_back queue NULL m0 m = Done (EXIT_FAILURE, m0)"
    by (simp add: q_push_back_def)
  have c: "run queue cs (m, u) = Some (Done (rs, m', u')) \<longrightarrow>
            (\<exists>as'. queue_inv queue m' as' \<and> NULL \<notin> set (payloads m' as'))"
    by (rule impI) (rule run_payloads_nonnull [OF assms(1,2)])
  have d: "q_pop_front queue m0 m = Done (x, m1) \<longrightarrow>
            (x = NULL \<longleftrightarrow> destroyed Q0 \<noteq> 0 \<or> destroyed Q \<noteq> 0)"
    using q_pop_front_null_iff [OF assms] by blast
  have e: "q_pop_back queue m0 m = Done (y, m2) \<longrightarrow>
            (y = NULL \<longleftrightarrow> destroyed Q0 \<noteq> 0 \<or> destroyed Q \<noteq> 0)"
    using q_pop_back_null_iff [OF assms] by blast
  have f: "q_pop_front NULL m0 m = Done (NULL, m0)" by (simp add: q_pop_front_def)
  have g: "q_pop_back NULL m0 m = Done (NULL, m0)" by (simp add: q_pop_back_def)
  from a b c d e f g show ?thesis by blast
qed

text \<open>
  The queue with the payloads 100 and 101: the pops return 100 and 101, and the
  queue is not destroyed.
\<close>

theorem payloads_never_null_witness:
  "queue_inv 1 two_node_mem [10, 11] \<and> NULL \<notin> set (payloads two_node_mem [10, 11])
   \<and> queues two_node_mem 1 = Some two_node_queue
   \<and> run 1 [Pop_front] (two_node_mem, ()) = Some (Done ([Payload 100], popped_front_mem, ()))
   \<and> (\<exists>as'. queue_inv 1 popped_front_mem as' \<and> NULL \<notin> set (payloads popped_front_mem as'))
   \<and> q_pop_front 1 two_node_mem two_node_mem = Done (100, popped_front_mem)
   \<and> q_pop_back 1 two_node_mem two_node_mem = Done (101, popped_back_mem)
   \<and> ((100::addr) = NULL \<longleftrightarrow> destroyed two_node_queue \<noteq> 0 \<or> destroyed two_node_queue \<noteq> 0)
   \<and> ((101::addr) = NULL \<longleftrightarrow> destroyed two_node_queue \<noteq> 0 \<or> destroyed two_node_queue \<noteq> 0)"
proof -
  have h1: "queue_inv 1 two_node_mem [10, 11]"
    by (simp add: queue_inv_def two_node_mem_def two_node_queue_def)
  have h2: "NULL \<notin> set (payloads two_node_mem [10, 11])"
    by (simp add: payloads_def two_node_mem_def)
  have h3: "queues two_node_mem 1 = Some two_node_queue" by (simp add: two_node_mem_def)
  have pf: "q_pop_front 1 two_node_mem two_node_mem = Done (100, popped_front_mem)"
    by (simp add: two_node_mem_def two_node_queue_def popped_front_mem_def
        q_pop_front_def get_queue_def write_lock_pop_def q_pop_front_locked_def get_node_def
        free_def upd_node_def upd_queue_def write_unlock_def fun_eq_iff)
  have pb: "q_pop_back 1 two_node_mem two_node_mem = Done (101, popped_back_mem)"
    by (simp add: two_node_mem_def two_node_queue_def popped_back_mem_def
        q_pop_back_def get_queue_def write_lock_pop_def q_pop_back_locked_def get_node_def
        free_def upd_node_def upd_queue_def write_unlock_def fun_eq_iff)
  have ex: "run 1 [Pop_front] (two_node_mem, ()) = Some (Done ([Payload 100], popped_front_mem, ()))"
    unfolding run.simps exec.simps pf by simp
  from payloads_never_null [OF h1 h2 h3 h3, of "[Pop_front]" "()" "[Payload 100]" popped_front_mem "()"
      100 popped_front_mem 101 popped_back_mem] h1 h2 h3 pf pb ex
  show ?thesis by simp
qed

section \<open>The destroyed flag\<close>

lemma exec_destroyed:
  assumes "queue \<noteq> NULL" "queues m queue = Some Q" "destroyed Q \<noteq> 0" "c \<noteq> Init"
  shows "\<exists>r. exec queue c (m, u) = Some (Done (r, m, u))"
proof (cases c)
  case Init
  with assms(4) show ?thesis by simp
next
  case (Push_front obj)
  with q_push_front_destroyed [OF assms(1,2,2), of obj] assms(3) show ?thesis by simp
next
  case (Push_back obj)
  with q_push_back_destroyed [OF assms(1,2,2), of obj] assms(3) show ?thesis by simp
next
  case Pop_front
  with q_pop_front_destroyed [OF assms(1,2,2)] assms(3) show ?thesis by simp
next
  case Pop_back
  with q_pop_back_destroyed [OF assms(1,2,2)] assms(3) show ?thesis by simp
next
  case (Traverse f)
  show ?thesis
  proof (cases f)
    case None
    with Traverse show ?thesis by (simp add: q_traverse_def)
  next
    case (Some g)
    with Traverse q_traverse_destroyed [OF assms(1,2,2), of g u] assms(3) show ?thesis by simp
  qed
next
  case Deinit
  with q_deinit_destroyed_before [OF assms(1,2,3), of m] show ?thesis by simp
qed

lemma run_destroyed:
  assumes "queue \<noteq> NULL" "queues m queue = Some Q" "destroyed Q \<noteq> 0" "Init \<notin> set cs"
  shows "\<exists>rs. run queue cs (m, u) = Some (Done (rs, m, u))"
  using assms(4)
proof (induction cs)
  case Nil
  then show ?case by simp
next
  case (Cons c cs)
  then have "c \<noteq> Init" and "Init \<notin> set cs" by auto
  from exec_destroyed [OF assms(1-3) this(1), of u] obtain r
    where r: "exec queue c (m, u) = Some (Done (r, m, u))" by blast
  from Cons.IH [OF \<open>Init \<notin> set cs\<close>] obtain rs
    where rs: "run queue cs (m, u) = Some (Done (rs, m, u))" by blast
  from r rs show ?case by simp
qed

lemma destroyed_set_only_by_deinit:
  assumes inv: "queue_inv queue m as" and Q: "queues m queue = Some Q"
    and live: "destroyed Q = 0"
    and run: "exec queue c (m, u) = Some (Done (r, m', u'))"
    and Q': "queues m' queue = Some Q'" and dead: "destroyed Q' \<noteq> 0"
  shows "c = Deinit \<and> head Q' = NULL \<and> tail Q' = NULL \<and> (\<forall>a\<in>set as. nodes m' a = None)"
proof -
  from exec_summary [OF inv Q run]
  consider "same_flags queue m m'"
    | Q1 where "queues m' queue = Some Q1" "destroyed Q1 = 0"
    | Q1 where "c = Deinit" "\<forall>a\<in>set as. nodes m' a = None"
        "queues m' queue = Some Q1" "head Q1 = NULL" "tail Q1 = NULL"
    by blast
  then show ?thesis
  proof cases
    case 1
    with Q Q' live dead show ?thesis by (simp add: same_flags_def)
  next
    case 2
    with Q' dead show ?thesis by simp
  next
    case 3
    with Q' show ?thesis by simp
  qed
qed

text \<open>
  C4 (as amended).  Once the destroyed flag of a queue is set, no sequence of calls
  of \<open>q_push_front\<close>, \<open>q_push_back\<close>, \<open>q_pop_front\<close>, \<open>q_pop_back\<close>,
  \<open>q_traverse\<close> and \<open>q_deinit\<close> clears it: each call returns and the memory is
  unchanged (\<open>q_init\<close> is not among them: it starts the queue again and clears the
  flag).  And if one call of any operation finds the flag clear and leaves it set,
  the call is \<open>q_deinit\<close>, head and tail are null, and every node the list had is
  freed.
\<close>

theorem destroyed_stays_until_init:
  assumes "queue_inv queue m as" and "queues m queue = Some Q"
  shows "(destroyed Q \<noteq> 0 \<and> Init \<notin> set cs \<longrightarrow>
            (\<exists>rs. run queue cs (m, u) = Some (Done (rs, m, u))))
       \<and> (destroyed Q = 0 \<and> exec queue c (m, u) = Some (Done (r, m', u')) \<and>
          queues m' queue = Some Q' \<and> destroyed Q' \<noteq> 0 \<longrightarrow>
            c = Deinit \<and> head Q' = NULL \<and> tail Q' = NULL \<and> (\<forall>a\<in>set as. nodes m' a = None))"
proof (intro conjI impI)
  assume "destroyed Q \<noteq> 0 \<and> Init \<notin> set cs"
  then have "destroyed Q \<noteq> 0" and "Init \<notin> set cs" by simp_all
  then show "\<exists>rs. run queue cs (m, u) = Some (Done (rs, m, u))"
    by (rule run_destroyed [OF queue_inv_Q(1) [OF assms] assms(2)])
next
  assume a: "destroyed Q = 0 \<and> exec queue c (m, u) = Some (Done (r, m', u')) \<and>
          queues m' queue = Some Q' \<and> destroyed Q' \<noteq> 0"
  with destroyed_set_only_by_deinit [OF assms, of c u r m' u' Q']
  show "c = Deinit" "head Q' = NULL" "tail Q' = NULL" "\<forall>a\<in>set as. nodes m' a = None"
    by simp_all
qed

text \<open>
  The torn down queue stays as it is under a push, a pop, a traversal and a second
  teardown; the flag of the queue with two elements is set by \<open>q_deinit\<close>.
\<close>

theorem destroyed_stays_until_init_witness:
  "queue_inv 1 torn_down_mem [] \<and> queues torn_down_mem 1 = Some torn_down_queue
   \<and> destroyed torn_down_queue \<noteq> 0
   \<and> Init \<notin> set [Push_front 100, Pop_back, Traverse (Some (#)), Deinit]
   \<and> run 1 [Push_front 100, Pop_back, Traverse (Some (#)), Deinit] (torn_down_mem, []) =
       Some (Done ([Status EXIT_FAILURE, Payload NULL, Status EXIT_FAILURE, Nothing],
                   torn_down_mem, []))
   \<and> queue_inv 1 two_node_mem [10, 11] \<and> queues two_node_mem 1 = Some two_node_queue
   \<and> destroyed two_node_queue = 0
   \<and> exec 1 Deinit (two_node_mem, ()) = Some (Done (Nothing, torn_down_mem, ()))
   \<and> head torn_down_queue = NULL \<and> tail torn_down_queue = NULL
   \<and> nodes torn_down_mem 10 = None \<and> nodes torn_down_mem 11 = None"
proof -
  have t1: "queue_inv 1 torn_down_mem []"
    by (simp add: queue_inv_def torn_down_mem_def torn_down_queue_def)
  have t2: "queues torn_down_mem 1 = Some torn_down_queue" by (simp add: torn_down_mem_def)
  have t3: "destroyed torn_down_queue \<noteq> 0" by (simp add: torn_down_queue_def)
  have t4: "Init \<notin> set [Push_front 100, Pop_back, Traverse (Some (#)), Deinit]" by simp
  have h1: "queue_inv 1 two_node_mem [10, 11]"
    by (simp add: queue_inv_def two_node_mem_def two_node_queue_def)
  have h2: "queues two_node_mem 1 = Some two_node_queue" by (simp add: two_node_mem_def)
  have h3: "destroyed two_node_queue = 0" by (simp add: two_node_queue_def)
  have d: "q_deinit 1 two_node_mem two_node_mem = Some (Done torn_down_mem)"
    by (simp add: q_deinit_def two_node_mem_def two_node_queue_def torn_down_mem_def
        torn_down_queue_def write_lock_push_def get_queue_def q_deinit_locked_def
        deinit_loop.simps get_node_def free_def upd_queue_def write_unlock_def fun_eq_iff)
  have e: "exec 1 Deinit (two_node_mem, ()) = Some (Done (Nothing, torn_down_mem, ()))"
    unfolding exec.simps d by simp
  have r: "run 1 [Push_front 100, Pop_back, Traverse (Some (#)), Deinit] (torn_down_mem, []) =
       Some (Done ([Status EXIT_FAILURE, Payload NULL, Status EXIT_FAILURE, Nothing],
                   torn_down_mem, []))"
    by (simp add: torn_down_mem_def torn_down_queue_def q_push_front_def q_pop_back_def
        q_traverse_def q_deinit_def get_queue_def)
  from destroyed_stays_until_init [OF t1 t2]
    destroyed_stays_until_init [OF h1 h2, of "[]" "()" Deinit "Nothing" torn_down_mem "()" torn_down_queue]
    t1 t2 t3 t4 h1 h2 h3 e r
  show ?thesis by (simp add: torn_down_queue_def)
qed

text \<open>
  C4 as stated fails: \<open>q_init\<close> on the torn down queue clears the destroyed flag.
\<close>

theorem q_init_clears_destroyed:
  "queues torn_down_mem 1 = Some torn_down_queue \<and> destroyed torn_down_queue = 1
   \<and> q_init 1 torn_down_mem = Done (EXIT_SUCCESS, reinit_mem)
   \<and> queues reinit_mem 1 = Some \<lparr>head = NULL, tail = NULL, readers = 0, destroyed = 0\<rparr>"
  by (simp add: torn_down_mem_def torn_down_queue_def reinit_mem_def q_init_def upd_queue_def)

section \<open>Refinement of the reference deque\<close>

lemma q_pop_front_unlocked:
  assumes "queue \<noteq> NULL" "queues m queue = Some Q" "destroyed Q = 0" "readers Q = 0"
    and "head Q \<noteq> NULL"
  shows "q_pop_front queue m m = q_pop_front_locked queue m"
  using assms by (simp add: q_pop_front_def get_queue_def write_lock_pop_def)

lemma q_pop_back_unlocked:
  assumes "queue \<noteq> NULL" "queues m queue = Some Q" "destroyed Q = 0" "readers Q = 0"
    and "head Q \<noteq> NULL"
  shows "q_pop_back queue m m = q_pop_back_locked queue m"
  using assms by (simp add: q_pop_back_def get_queue_def write_lock_pop_def)

lemma q_pop_blocked:
  assumes "queue \<noteq> NULL" "queues m queue = Some Q" "destroyed Q = 0" "head Q = NULL"
  shows "q_pop_front queue m m = Blocked" "q_pop_back queue m m = Blocked"
  using assms
  by (simp_all add: q_pop_front_def q_pop_back_def get_queue_def write_lock_pop_def)

text \<open>
  One operation, from a queue that is well formed, not destroyed and without
  readers: when \<open>malloc\<close> returns a block, the call does what the reference deque
  does on the list of payloads, and leaves such a queue again.
\<close>

lemma deque_step_refines:
  assumes inv: "queue_inv queue m as" and Q: "queues m queue = Some Q"
    and live: "destroyed Q = 0" and nr: "readers Q = 0"
    and al: "allocation_succeeds c m"
  shows "case ref_deque_step c (payloads m as) of
           Done (r, ys) \<Rightarrow>
             (\<exists>m' as' Q'. exec queue (to_call c) (m, u) = Some (Done (r, m', u)) \<and>
                queue_inv queue m' as' \<and> payloads m' as' = ys \<and>
                queues m' queue = Some Q' \<and> destroyed Q' = 0 \<and> readers Q' = 0)
         | Blocked \<Rightarrow> exec queue (to_call c) (m, u) = Some Blocked
         | Fault \<Rightarrow> False"
proof -
  note q = queue_inv_Q [OF inv Q]
  have keep: "\<exists>m' as' Q'. m' = m \<and>
                queue_inv queue m' as' \<and> payloads m' as' = payloads m as \<and>
                queues m' queue = Some Q' \<and> destroyed Q' = 0 \<and> readers Q' = 0"
    using inv Q live nr by blast
  show ?thesis
  proof (cases c)
    case (PushFront x)
    show ?thesis
    proof (cases "x = NULL")
      case True
      have "q_push_front queue NULL m m = Done (EXIT_FAILURE, m)" by (simp add: q_push_front_def)
      then show ?thesis using PushFront True keep by auto
    next
      case False
      let ?p = "fst (malloc m)"
      from al PushFront False have p: "?p \<noteq> NULL" by simp
      from q_push_front_locked_ok [OF inv Q live False refl p]
      obtain m' where run: "q_push_front_locked queue x m = Done (EXIT_SUCCESS, m')"
        and inv': "queue_inv queue m' (?p # as)"
        and pl: "payloads m' (?p # as) = x # payloads m as"
        and Q': "queues m' queue = Some (Q\<lparr>head := ?p, tail := (if as = [] then ?p else tail Q)\<rparr>)"
        by blast
      have ex: "exec queue (to_call c) (m, u) = Some (Done (Status EXIT_SUCCESS, m', u))"
        using PushFront q_push_front_unlocked [OF q(1) Q live nr False] run by simp
      show ?thesis
        using PushFront False ex inv' pl Q' live nr by auto
    qed
  next
    case (PushBack x)
    show ?thesis
    proof (cases "x = NULL")
      case True
      have "q_push_back queue NULL m m = Done (EXIT_FAILURE, m)" by (simp add: q_push_back_def)
      then show ?thesis using PushBack True keep by auto
    next
      case False
      let ?p = "fst (malloc m)"
      from al PushBack False have p: "?p \<noteq> NULL" by simp
      from q_push_back_locked_ok [OF inv Q live False refl p]
      obtain m' where run: "q_push_back_locked queue x m = Done (EXIT_SUCCESS, m')"
        and inv': "queue_inv queue m' (as @ [?p])"
        and pl: "payloads m' (as @ [?p]) = payloads m as @ [x]"
        and Q': "queues m' queue = Some (Q\<lparr>head := (if as = [] then ?p else head Q), tail := ?p\<rparr>)"
        by blast
      have ex: "exec queue (to_call c) (m, u) = Some (Done (Status EXIT_SUCCESS, m', u))"
        using PushBack q_push_back_unlocked [OF q(1) Q live nr False] run by simp
      show ?thesis
        using PushBack False ex inv' pl Q' live nr by auto
    qed
  next
    case PopFront
    show ?thesis
    proof (cases as)
      case Nil
      with q have "head Q = NULL" by simp
      from q_pop_blocked(1) [OF q(1) Q live this] PopFront Nil show ?thesis
        by (simp add: payloads_def)
    next
      case (Cons a as1)
      with queue_inv_head_null [OF inv Q] have hd: "head Q \<noteq> NULL" by simp
      from q_pop_front_locked_ok [OF inv [unfolded Cons] Q live]
      obtain m' where run: "q_pop_front_locked queue m = Done (hd (payloads m (a # as1)), m')"
        and inv': "queue_inv queue m' as1"
        and pl: "payloads m' as1 = tl (payloads m (a # as1))"
        and Q': "queues m' queue = Some (Q\<lparr>head := (if as1 = [] then NULL else hd as1),
                  tail := (if as1 = [] then NULL else tail Q)\<rparr>)"
        by blast
      have ex: "exec queue (to_call c) (m, u) =
                  Some (Done (Payload (hd (payloads m (a # as1))), m', u))"
        using PopFront q_pop_front_unlocked [OF q(1) Q live nr hd] run by simp
      have ne: "payloads m as \<noteq> []" using Cons by (simp add: payloads_def)
      show ?thesis
        using PopFront Cons ne ex inv' pl Q' live nr by auto
    qed
  next
    case PopBack
    show ?thesis
    proof (cases as rule: rev_cases)
      case Nil
      with q have "head Q = NULL" by simp
      from q_pop_blocked(2) [OF q(1) Q live this] PopBack Nil show ?thesis
        by (simp add: payloads_def)
    next
      case (snoc as1 a)
      with queue_inv_head_null [OF inv Q] have hd: "head Q \<noteq> NULL" by simp
      from q_pop_back_locked_ok [OF inv [unfolded snoc] Q live]
      obtain m' where run: "q_pop_back_locked queue m = Done (last (payloads m (as1 @ [a])), m')"
        and inv': "queue_inv queue m' as1"
        and pl: "payloads m' as1 = butlast (payloads m (as1 @ [a]))"
        and Q': "queues m' queue = Some (Q\<lparr>head := (if as1 = [] then NULL else head Q),
                  tail := (if as1 = [] then NULL else last as1)\<rparr>)"
        by blast
      have ex: "exec queue (to_call c) (m, u) =
                  Some (Done (Payload (last (payloads m (as1 @ [a]))), m', u))"
        using PopBack q_pop_back_unlocked [OF q(1) Q live nr hd] run by simp
      have ne: "payloads m as \<noteq> []" using snoc by (simp add: payloads_def)
      show ?thesis
        using PopBack snoc ne ex inv' pl Q' live nr by auto
    qed
  qed
qed

text \<open>
  When \<open>malloc\<close> returns null, the push of a payload that is not null either goes
  through that null pointer (on the empty queue) or reports the failure.
\<close>

lemma deque_step_alloc_failure:
  assumes inv: "queue_inv queue m as" and Q: "queues m queue = Some Q"
    and live: "destroyed Q = 0" and nr: "readers Q = 0"
    and al: "\<not> allocation_succeeds c m"
  shows "exec queue (to_call c) (m, u) = Some Fault \<or>
         (\<exists>m'. exec queue (to_call c) (m, u) = Some (Done (Status EXIT_FAILURE, m', u)))"
proof -
  note q = queue_inv_Q [OF inv Q]
  from al obtain x where c: "c = PushFront x \<or> c = PushBack x"
    and x: "x \<noteq> NULL" and p: "fst (malloc m) = NULL"
    by (cases c) auto
  show ?thesis
  proof (cases "as = []")
    case True
    with queue_inv_head_null [OF inv Q] queue_inv_tail_null [OF inv Q]
    have e: "head Q = NULL" "tail Q = NULL" by simp_all
    from q_push_front_locked_first_alloc_failure [OF q(1) Q live x e p]
      q_push_front_unlocked [OF q(1) Q live nr x]
    have f: "q_push_front queue x m m = Fault" by simp
    from q_push_back_locked_first_alloc_failure [OF q(1) Q live x e p]
      q_push_back_unlocked [OF q(1) Q live nr x]
    have b: "q_push_back queue x m m = Fault" by simp
    from c f b show ?thesis by auto
  next
    case False
    from q_push_alloc_failure_nonempty [OF inv False Q live nr x p]
    obtain m' where "q_push_front queue x m m = Done (EXIT_FAILURE, m')"
      "q_push_back queue x m m = Done (EXIT_FAILURE, m')"
      by blast
    with c show ?thesis by auto
  qed
qed

lemma deque_run_refines:
  assumes "queue_inv queue m as" and "queues m queue = Some Q"
    and "destroyed Q = 0" and "readers Q = 0"
    and "allocations_succeed queue ops (m, u)"
  shows "case ref_deque_run ops (payloads m as) of
           Done (rs, ys) \<Rightarrow>
             (\<exists>m' as'. run queue (map to_call ops) (m, u) = Some (Done (rs, m', u)) \<and>
                queue_inv queue m' as' \<and> payloads m' as' = ys)
         | Blocked \<Rightarrow> run queue (map to_call ops) (m, u) = Some Blocked
         | Fault \<Rightarrow> False"
  using assms
proof (induction ops arbitrary: m as Q)
  case Nil
  then show ?case by auto
next
  case (Cons c cs)
  from Cons.prems(5) have al: "allocation_succeeds c m" by simp
  note step = deque_step_refines [OF Cons.prems(1-4) al, of u]
  show ?case
  proof (cases "ref_deque_step c (payloads m as)")
    case Fault
    with step show ?thesis by simp
  next
    case Blocked
    with step show ?thesis by simp
  next
    case (Done p)
    obtain r ys where p: "p = (r, ys)" by (cases p)
    from step Done p obtain m' as' Q'
      where ex: "exec queue (to_call c) (m, u) = Some (Done (r, m', u))"
        and inv': "queue_inv queue m' as'" and pl: "payloads m' as' = ys"
        and Q': "queues m' queue = Some Q'" "destroyed Q' = 0" "readers Q' = 0"
      by auto
    from Cons.prems(5) ex have al': "allocations_succeed queue cs (m', u)" by simp
    note ih = Cons.IH [OF inv' Q' al', unfolded pl]
    show ?thesis
    proof (cases "ref_deque_run cs ys")
      case Fault
      with ih show ?thesis by simp
    next
      case Blocked
      with ih Done p ex show ?thesis by simp
    next
      case inner: (Done p')
      obtain rs zs where p': "p' = (rs, zs)" by (cases p')
      from ih inner p' obtain m2 as2
        where "run queue (map to_call cs) (m', u) = Some (Done (rs, m2, u))"
          "queue_inv queue m2 as2" "payloads m2 as2 = zs"
        by auto
      with Done p inner p' ex show ?thesis by auto
    qed
  qed
qed

text \<open>
  A run that returned, with every push of a payload that is not null reporting
  success, is a run in which \<open>malloc\<close> returned a block each time.
\<close>

lemma run_allocations_succeed:
  assumes "queue_inv queue m as" and "queues m queue = Some Q"
    and "destroyed Q = 0" and "readers Q = 0"
    and "run queue (map to_call ops) (m, u) = Some (Done (rs, s'))"
    and "pushes_succeeded ops rs"
  shows "allocations_succeed queue ops (m, u)"
  using assms
proof (induction ops arbitrary: m as Q rs)
  case Nil
  then show ?case by simp
next
  case (Cons c cs)
  from Cons.prems(5) have "run queue (to_call c # map to_call cs) (m, u) = Some (Done (rs, s'))"
    by simp
  then obtain r s1 rs1 where ex: "exec queue (to_call c) (m, u) = Some (Done (r, s1))"
    and rest: "run queue (map to_call cs) s1 = Some (Done (rs1, s'))" and rs: "rs = r # rs1"
    by (rule run_Cons_Done)
  from Cons.prems(6) rs have ok: "pushes_succeeded cs rs1"
    by (cases c) simp_all
  have al: "allocation_succeeds c m"
  proof (rule ccontr)
    assume na: "\<not> allocation_succeeds c m"
    then obtain x where c: "c = PushFront x \<or> c = PushBack x" and x: "x \<noteq> NULL"
      by (cases c) auto
    with Cons.prems(6) rs have r: "r = Status EXIT_SUCCESS" by auto
    from deque_step_alloc_failure [OF Cons.prems(1-4) na, of u] ex r show False by auto
  qed
  note step = deque_step_refines [OF Cons.prems(1-4) al, of u]
  show ?case
  proof (cases "ref_deque_step c (payloads m as)")
    case Fault
    with step show ?thesis by simp
  next
    case Blocked
    with step ex show ?thesis by simp
  next
    case (Done p)
    obtain r' ys where p: "p = (r', ys)" by (cases p)
    from step Done p obtain m' as' Q'
      where ex': "exec queue (to_call c) (m, u) = Some (Done (r', m', u))"
        and inv': "queue_inv queue m' as'"
        and Q': "queues m' queue = Some Q'" "destroyed Q' = 0" "readers Q' = 0"
      by auto
    from ex ex' have s1: "s1 = (m', u)" by simp
    from Cons.IH [OF inv' Q' rest [unfolded s1] ok]
    have "allocations_succeed queue cs (m', u)" .
    with al ex' show ?thesis by simp
  qed
qed

text \<open>
  C1.  On one thread, on a queue that is well formed, not destroyed and without
  readers, a sequence of \<open>q_push_front\<close>, \<open>q_push_back\<close>, \<open>q_pop_front\<close> and
  \<open>q_pop_back\<close> in which \<open>malloc\<close> returns a block each time it is called (any
  block, also one that a pop has freed) gives the results of the reference deque on
  the list of payloads, and leaves a queue whose payloads are the list the reference
  deque is left with; where the reference deque waits (a pop on the empty deque),
  the queue waits.  Seen from the caller: when the sequence has returned and every
  push of a payload that is not null has reported success, the results and the
  payloads left are those of the reference deque.  In particular, on the empty
  queue, \<open>q_push_front x\<close> followed by \<open>q_pop_front\<close> returns \<open>x\<close> and leaves the
  queue empty, head and tail null; and after \<open>q_push_front 1\<close> and
  \<open>q_push_front 2\<close>, \<open>q_pop_back\<close> returns 1.
\<close>

theorem single_thread_deque:
  assumes "queue_inv queue m as" and "queues m queue = Some Q"
    and "destroyed Q = 0" and "readers Q = 0"
  shows "(allocations_succeed queue ops (m, u) \<longrightarrow>
           (case ref_deque_run ops (payloads m as) of
              Done (rs, ys) \<Rightarrow>
                (\<exists>m' as'. run queue (map to_call ops) (m, u) = Some (Done (rs, m', u)) \<and>
                   queue_inv queue m' as' \<and> payloads m' as' = ys)
            | Blocked \<Rightarrow> run queue (map to_call ops) (m, u) = Some Blocked
            | Fault \<Rightarrow> False))
       \<and> (run queue (map to_call ops) (m, u) = Some (Done (rs, m1, u1)) \<and>
          pushes_succeeded ops rs \<longrightarrow>
           u1 = u \<and>
           (\<exists>as1. queue_inv queue m1 as1 \<and>
              ref_deque_run ops (payloads m as) = Done (rs, payloads m1 as1)))
       \<and> (as = [] \<and> x \<noteq> NULL \<and> fst (malloc m) \<noteq> NULL \<longrightarrow>
           (\<exists>m' Q'. run queue [Push_front x, Pop_front] (m, u) =
                        Some (Done ([Status EXIT_SUCCESS, Payload x], m', u)) \<and>
                    queue_inv queue m' [] \<and>
                    queues m' queue = Some Q' \<and> head Q' = NULL \<and> tail Q' = NULL))
       \<and> (as = [] \<and> allocations_succeed queue [PushFront 1, PushFront 2, PopBack] (m, u) \<longrightarrow>
           (\<exists>m'. run queue [Push_front 1, Push_front 2, Pop_back] (m, u) =
                    Some (Done ([Status EXIT_SUCCESS, Status EXIT_SUCCESS, Payload 1], m', u))))"
proof (intro conjI impI)
  assume "allocations_succeed queue ops (m, u)"
  with assms show "case ref_deque_run ops (payloads m as) of
              Done (rs, ys) \<Rightarrow>
                (\<exists>m' as'. run queue (map to_call ops) (m, u) = Some (Done (rs, m', u)) \<and>
                   queue_inv queue m' as' \<and> payloads m' as' = ys)
            | Blocked \<Rightarrow> run queue (map to_call ops) (m, u) = Some Blocked
            | Fault \<Rightarrow> False"
    by (rule deque_run_refines)
next
  assume a: "run queue (map to_call ops) (m, u) = Some (Done (rs, m1, u1)) \<and>
             pushes_succeeded ops rs"
  then have run: "run queue (map to_call ops) (m, u) = Some (Done (rs, m1, u1))"
    and ok: "pushes_succeeded ops rs" by simp_all
  have al: "allocations_succeed queue ops (m, u)"
    by (rule run_allocations_succeed [OF assms run ok])
  note ref = deque_run_refines [OF assms al]
  have both: "u1 = u \<and>
           (\<exists>as1. queue_inv queue m1 as1 \<and>
              ref_deque_run ops (payloads m as) = Done (rs, payloads m1 as1))"
  proof (cases "ref_deque_run ops (payloads m as)")
    case Fault
    with ref show ?thesis by simp
  next
    case Blocked
    with ref run show ?thesis by simp
  next
    case (Done p)
    obtain rs' ys where p: "p = (rs', ys)" by (cases p)
    from ref Done p obtain m' as'
      where run': "run queue (map to_call ops) (m, u) = Some (Done (rs', m', u))"
        and inv': "queue_inv queue m' as'" and pl: "payloads m' as' = ys"
      by auto
    from run run' have e: "rs' = rs" "m' = m1" "u1 = u" by simp_all
    from inv' pl Done p e show ?thesis by auto
  qed
  from both show "u1 = u" by simp
  from both show "\<exists>as1. queue_inv queue m1 as1 \<and>
              ref_deque_run ops (payloads m as) = Done (rs, payloads m1 as1)" by simp
next
  assume a: "as = [] \<and> x \<noteq> NULL \<and> fst (malloc m) \<noteq> NULL"
  then have al: "allocations_succeed queue [PushFront x, PopFront] (m, u)"
    by (simp split: option.splits outcome.splits)
  from a have r: "ref_deque_run [PushFront x, PopFront] (payloads m as) =
                    Done ([Status EXIT_SUCCESS, Payload x], [])"
    by (simp add: payloads_def)
  from deque_run_refines [OF assms al] r obtain m' as'
    where run: "run queue [Push_front x, Pop_front] (m, u) =
                  Some (Done ([Status EXIT_SUCCESS, Payload x], m', u))"
      and inv': "queue_inv queue m' as'" and pl: "payloads m' as' = []"
    by auto
  from pl have e: "as' = []" by (simp add: payloads_def)
  from inv' obtain Q' where Q': "queues m' queue = Some Q'" by (rule queue_inv_obtain)
  from queue_inv_head_null [OF inv' Q'] queue_inv_tail_null [OF inv' Q'] e
  have "head Q' = NULL" "tail Q' = NULL" by simp_all
  with run Q' inv' e show "\<exists>m' Q'. run queue [Push_front x, Pop_front] (m, u) =
                        Some (Done ([Status EXIT_SUCCESS, Payload x], m', u)) \<and>
                    queue_inv queue m' [] \<and>
                    queues m' queue = Some Q' \<and> head Q' = NULL \<and> tail Q' = NULL"
    by blast
next
  assume a: "as = [] \<and> allocations_succeed queue [PushFront 1, PushFront 2, PopBack] (m, u)"
  then have al: "allocations_succeed queue [PushFront 1, PushFront 2, PopBack] (m, u)"
    by (rule conjunct2)
  from a have r: "ref_deque_run [PushFront 1, PushFront 2, PopBack] (payloads m as) =
                    Done ([Status EXIT_SUCCESS, Status EXIT_SUCCESS, Payload 1], [2])"
    by (simp add: payloads_def)
  from deque_run_refines [OF assms al] r
  show "\<exists>m'. run queue [Push_front 1, Push_front 2, Pop_back] (m, u) =
                    Some (Done ([Status EXIT_SUCCESS, Status EXIT_SUCCESS, Payload 1], m', u))"
    by auto
qed

text \<open>
  The empty queue, with an allocator that gives the block at 10 a second time after
  the pop that freed it: a sequence of pushes and pops at both ends, the same
  followed by a pop on the empty queue, and the two examples.
\<close>

theorem single_thread_deque_witness:
  "queue_inv 1 recycling_mem [] \<and>
   queues recycling_mem 1 = Some \<lparr>head = NULL, tail = NULL, readers = 0, destroyed = 0\<rparr> \<and>
   fst (malloc recycling_mem) = 10 \<and>
   allocations_succeed 1 [PushBack 5, PushFront 6, PopBack, PushBack 7, PopFront, PopFront]
     (recycling_mem, ()) \<and>
   ref_deque_run [PushBack 5, PushFront 6, PopBack, PushBack 7, PopFront, PopFront]
       (payloads recycling_mem []) =
     Done ([Status EXIT_SUCCESS, Status EXIT_SUCCESS, Payload 5, Status EXIT_SUCCESS,
            Payload 6, Payload 7], []) \<and>
   (\<exists>m' as'. run 1 [Push_back 5, Push_front 6, Pop_back, Push_back 7, Pop_front, Pop_front]
                 (recycling_mem, ()) =
        Some (Done ([Status EXIT_SUCCESS, Status EXIT_SUCCESS, Payload 5, Status EXIT_SUCCESS,
                     Payload 6, Payload 7], m', ())) \<and>
      queue_inv 1 m' as' \<and> payloads m' as' = []) \<and>
   allocations_succeed 1
     [PushBack 5, PushFront 6, PopBack, PushBack 7, PopFront, PopFront, PopFront]
     (recycling_mem, ()) \<and>
   run 1 [Push_back 5, Push_front 6, Pop_back, Push_back 7, Pop_front, Pop_front, Pop_front]
     (recycling_mem, ()) = Some Blocked \<and>
   run 1 [Push_back 5, Push_front 6, Pop_back, Push_back 7, Pop_front, Pop_front]
       (recycling_mem, ()) =
     Some (Done ([Status EXIT_SUCCESS, Status EXIT_SUCCESS, Payload 5, Status EXIT_SUCCESS,
                  Payload 6, Payload 7], recycled_mem, ())) \<and>
   pushes_succeeded [PushBack 5, PushFront 6, PopBack, PushBack 7, PopFront, PopFront]
     [Status EXIT_SUCCESS, Status EXIT_SUCCESS, Payload 5, Status EXIT_SUCCESS,
      Payload 6, Payload 7] \<and>
   (\<exists>as1. queue_inv 1 recycled_mem as1 \<and>
      ref_deque_run [PushBack 5, PushFront 6, PopBack, PushBack 7, PopFront, PopFront]
          (payloads recycling_mem []) =
        Done ([Status EXIT_SUCCESS, Status EXIT_SUCCESS, Payload 5, Status EXIT_SUCCESS,
               Payload 6, Payload 7], payloads recycled_mem as1)) \<and>
   (\<exists>m' Q'. run 1 [Push_front 100, Pop_front] (recycling_mem, ()) =
        Some (Done ([Status EXIT_SUCCESS, Payload 100], m', ())) \<and>
      queue_inv 1 m' [] \<and> queues m' 1 = Some Q' \<and> head Q' = NULL \<and> tail Q' = NULL) \<and>
   allocations_succeed 1 [PushFront 1, PushFront 2, PopBack] (recycling_mem, ()) \<and>
   (\<exists>m'. run 1 [Push_front 1, Push_front 2, Pop_back] (recycling_mem, ()) =
        Some (Done ([Status EXIT_SUCCESS, Status EXIT_SUCCESS, Payload 1], m', ())))"
proof -
  note ev = recycling_mem_def recycled_mem_def
    q_push_front_def q_push_back_def q_pop_front_def q_pop_back_def
    get_queue_def get_node_def write_lock_push_def write_lock_pop_def
    q_push_front_locked_def q_push_back_locked_def
    q_pop_front_locked_def q_pop_back_locked_def create_first_node_def
    malloc_def free_def upd_node_def upd_queue_def write_unlock_def
  have h1: "queue_inv 1 recycling_mem []"
    by (simp add: queue_inv_def recycling_mem_def)
  have h2: "queues recycling_mem 1 =
              Some \<lparr>head = NULL, tail = NULL, readers = 0, destroyed = 0\<rparr>"
    by (simp add: recycling_mem_def)
  have h3: "destroyed \<lparr>head = NULL, tail = NULL, readers = 0, destroyed = 0\<rparr> = 0" by simp
  have h4: "readers \<lparr>head = NULL, tail = NULL, readers = 0, destroyed = 0\<rparr> = 0" by simp
  have ml: "fst (malloc recycling_mem) = 10"
    by (simp add: recycling_mem_def malloc_def)
  have al1: "allocations_succeed 1
      [PushBack 5, PushFront 6, PopBack, PushBack 7, PopFront, PopFront] (recycling_mem, ())"
    by (simp add: ev)
  have al2: "allocations_succeed 1
      [PushBack 5, PushFront 6, PopBack, PushBack 7, PopFront, PopFront, PopFront]
      (recycling_mem, ())"
    by (simp add: ev)
  have al3: "allocations_succeed 1 [PushFront 1, PushFront 2, PopBack] (recycling_mem, ())"
    by (simp add: ev)
  have rn: "run 1 [Push_back 5, Push_front 6, Pop_back, Push_back 7, Pop_front, Pop_front]
       (recycling_mem, ()) =
     Some (Done ([Status EXIT_SUCCESS, Status EXIT_SUCCESS, Payload 5, Status EXIT_SUCCESS,
                  Payload 6, Payload 7], recycled_mem, ()))"
    by (simp add: ev fun_eq_iff)
  have ps: "pushes_succeeded [PushBack 5, PushFront 6, PopBack, PushBack 7, PopFront, PopFront]
     [Status EXIT_SUCCESS, Status EXIT_SUCCESS, Payload 5, Status EXIT_SUCCESS,
      Payload 6, Payload 7]"
    by simp
  have p: "payloads recycling_mem [] = []" by (simp add: payloads_def)
  have rf: "ref_deque_run [PushBack 5, PushFront 6, PopBack, PushBack 7, PopFront, PopFront]
       (payloads recycling_mem []) =
     Done ([Status EXIT_SUCCESS, Status EXIT_SUCCESS, Payload 5, Status EXIT_SUCCESS,
            Payload 6, Payload 7], [])"
    by (simp add: p)
  note inst = single_thread_deque [OF h1 h2 h3 h4]
  from inst [of "[PushBack 5, PushFront 6, PopBack, PushBack 7, PopFront, PopFront]" "()"
      "[Status EXIT_SUCCESS, Status EXIT_SUCCESS, Payload 5, Status EXIT_SUCCESS,
        Payload 6, Payload 7]" recycled_mem "()" 100] al1 al3 rn ps ml
  have a: "\<exists>m' as'. run 1 [Push_back 5, Push_front 6, Pop_back, Push_back 7, Pop_front, Pop_front]
                 (recycling_mem, ()) =
        Some (Done ([Status EXIT_SUCCESS, Status EXIT_SUCCESS, Payload 5, Status EXIT_SUCCESS,
                     Payload 6, Payload 7], m', ())) \<and>
      queue_inv 1 m' as' \<and> payloads m' as' = []"
    and c: "\<exists>as1. queue_inv 1 recycled_mem as1 \<and>
      ref_deque_run [PushBack 5, PushFront 6, PopBack, PushBack 7, PopFront, PopFront]
          (payloads recycling_mem []) =
        Done ([Status EXIT_SUCCESS, Status EXIT_SUCCESS, Payload 5, Status EXIT_SUCCESS,
               Payload 6, Payload 7], payloads recycled_mem as1)"
    and d: "\<exists>m' Q'. run 1 [Push_front 100, Pop_front] (recycling_mem, ()) =
        Some (Done ([Status EXIT_SUCCESS, Payload 100], m', ())) \<and>
      queue_inv 1 m' [] \<and> queues m' 1 = Some Q' \<and> head Q' = NULL \<and> tail Q' = NULL"
    and e: "\<exists>m'. run 1 [Push_front 1, Push_front 2, Pop_back] (recycling_mem, ()) =
        Some (Done ([Status EXIT_SUCCESS, Status EXIT_SUCCESS, Payload 1], m', ()))"
    unfolding rf by simp_all
  from inst [of "[PushBack 5, PushFront 6, PopBack, PushBack 7, PopFront, PopFront, PopFront]"
      "()" "[]" recycled_mem "()" 100] al2
  have b: "run 1 [Push_back 5, Push_front 6, Pop_back, Push_back 7, Pop_front, Pop_front, Pop_front]
     (recycling_mem, ()) = Some Blocked"
    by (simp add: p)
  from h1 h2 ml al1 rf a al2 b rn ps c d al3 e show ?thesis by (intro conjI)
qed

end
